theory Spec2Isabelle
  imports Main
begin

section \<open>C++ values: int and vector<int>\<close>

text \<open>
  The source works on C++ \<^verbatim>\<open>int\<close> values stored in \<^verbatim>\<open>vector<int>\<close>.
  An \<^verbatim>\<open>int\<close> is modelled as a mathematical integer together with the bounds
  of the 32-bit type; signed overflow is undefined behaviour in C++ and is an
  explicit error of the model. \<^verbatim>\<open>operator[]\<close> of a vector performs no bounds
  check; an index outside the vector is undefined behaviour and is an explicit
  error of the model as well.
\<close>

definition INT_MAX :: int where
  "INT_MAX = 2147483647"

definition INT_MIN :: int where
  "INT_MIN = - 2147483648"

definition in_range :: "int list \<Rightarrow> int \<Rightarrow> bool" where
  "in_range xs i \<longleftrightarrow> 0 \<le> i \<and> i < int (length xs)"

definition at :: "int list \<Rightarrow> int \<Rightarrow> int" where
  "at xs i = xs ! nat i"

definition upd :: "int list \<Rightarrow> int \<Rightarrow> int \<Rightarrow> int list" where
  "upd xs i v = xs[nat i := v]"

datatype error = OutOfBounds | SignedOverflow | LengthError | StackOverflow

text \<open>
  A failing operation yields the error together with the state the object had
  when the offending access was attempted; a successful one yields its return
  value and the new state. Non-termination is \<open>None\<close>.
\<close>

type_synonym 's fault = "error \<times> 's"

section \<open>class UnionFind (src/UnionFind/UnionFind.cpp)\<close>

record UnionFind =
  parent :: "int list"
  rank :: "int list"

text \<open>The constructor's loop \<^verbatim>\<open>for (int i = 0; i < n; i++) parent[i] = i;\<close>\<close>

function init_loop :: "int \<Rightarrow> int \<Rightarrow> int list \<Rightarrow> int list" where
  "init_loop i n p = (if i < n then init_loop (i + 1) n (upd p i i) else p)"
  by pat_completeness auto
termination
  by (relation "measure (\<lambda>(i, n, p). nat (n - i))") auto

declare init_loop.simps [simp del]

text \<open>
  \<^verbatim>\<open>UnionFind(int n)\<close>: \<^verbatim>\<open>parent.resize(n)\<close> converts a negative \<open>n\<close> to a
  huge unsigned size, which \<^verbatim>\<open>resize\<close> refuses with \<^verbatim>\<open>std::length_error\<close>.
\<close>

definition UnionFind_init :: "int \<Rightarrow> error + UnionFind" where
  "UnionFind_init n =
     (if n < 0 then Inl LengthError
      else Inr \<lparr> parent = init_loop 0 n (replicate (nat n) 0),
                 rank = replicate (nat n) 0 \<rparr>)"

text \<open>
  \<^verbatim>\<open>int find(int u)\<close>: recursive, with path compression. The recursion does not
  terminate on a cyclic parent array, hence the partial function. The vector is never
  resized, so an index found in range at \<^verbatim>\<open>parent[u] != u\<close> is in range for the
  write and for the final read as well.
  The function is stated for every extension of the record, so that the class
  of the documentation, which adds a counter, shares it.
\<close>

partial_function (option) find_uf ::
  "'a UnionFind_scheme \<Rightarrow> int \<Rightarrow> ('a UnionFind_scheme fault + int \<times> 'a UnionFind_scheme) option"
where
  "find_uf s u =
     (if \<not> in_range (parent s) u then Some (Inl (OutOfBounds, s))
      else if at (parent s) u \<noteq> u then
        Option.bind (find_uf s (at (parent s) u))
          (\<lambda>res. case res of
               Inl f \<Rightarrow> Some (Inl f)
             | Inr (r, s1) \<Rightarrow>
                 (let s2 = s1\<lparr>parent := upd (parent s1) u r\<rparr>
                  in Some (Inr (at (parent s2) u, s2))))
      else Some (Inr (at (parent s) u, s)))"

text \<open>
  \<^verbatim>\<open>void unionSets(int u, int v)\<close>: union by rank. What \<open>find\<close> returns is an
  index it has read as its own parent (\<open>find_uf_returns_iff\<close> below), so the two
  roots are in range for the parent vector; nothing ties the length of the rank vector
  to it in an arbitrary state, hence the check on that one.
\<close>

definition unionSets ::
  "'a UnionFind_scheme \<Rightarrow> int \<Rightarrow> int \<Rightarrow> ('a UnionFind_scheme fault + 'a UnionFind_scheme) option"
where
  "unionSets s u v =
     (case find_uf s u of
        None \<Rightarrow> None
      | Some (Inl f) \<Rightarrow> Some (Inl f)
      | Some (Inr (rootU, s1)) \<Rightarrow>
          (case find_uf s1 v of
             None \<Rightarrow> None
           | Some (Inl f) \<Rightarrow> Some (Inl f)
           | Some (Inr (rootV, s2)) \<Rightarrow>
               if rootU \<noteq> rootV then
                 if \<not> (in_range (rank s2) rootU \<and> in_range (rank s2) rootV)
                 then Some (Inl (OutOfBounds, s2))
                 else if at (rank s2) rootU < at (rank s2) rootV
                 then Some (Inr (s2\<lparr>parent := upd (parent s2) rootU rootV\<rparr>))
                 else if at (rank s2) rootU > at (rank s2) rootV
                 then Some (Inr (s2\<lparr>parent := upd (parent s2) rootV rootU\<rparr>))
                 else
                   (let s3 = s2\<lparr>parent := upd (parent s2) rootV rootU\<rparr>
                    in if at (rank s3) rootU = INT_MAX then Some (Inl (SignedOverflow, s3))
                       else Some (Inr (s3\<lparr>rank := upd (rank s3) rootU (at (rank s3) rootU + 1)\<rparr>)))
               else Some (Inr s2)))"

text \<open>\<^verbatim>\<open>void unionSets(int u, int v, bool byRank)\<close>\<close>

definition unionSets3 ::
  "'a UnionFind_scheme \<Rightarrow> int \<Rightarrow> int \<Rightarrow> bool \<Rightarrow> ('a UnionFind_scheme fault + 'a UnionFind_scheme) option"
where
  "unionSets3 s u v byRank =
     (if byRank then unionSets s u v
      else
        (case find_uf s u of
           None \<Rightarrow> None
         | Some (Inl f) \<Rightarrow> Some (Inl f)
         | Some (Inr (rootU, s1)) \<Rightarrow>
             (case find_uf s1 v of
                None \<Rightarrow> None
              | Some (Inl f) \<Rightarrow> Some (Inl f)
              | Some (Inr (rootV, s2)) \<Rightarrow>
                  if rootU \<noteq> rootV
                  then Some (Inr (s2\<lparr>parent := upd (parent s2) rootV rootU\<rparr>))
                  else Some (Inr s2))))"

text \<open>
  \<^verbatim>\<open>void unionBySize(int u, int v, vector<int>& size)\<close>: the size vector is the
  caller's, passed by reference; the model returns it beside the object.
\<close>

definition int_ok :: "int \<Rightarrow> bool" where
  "int_ok x \<longleftrightarrow> INT_MIN \<le> x \<and> x \<le> INT_MAX"

definition unionBySize ::
  "'a UnionFind_scheme \<Rightarrow> int \<Rightarrow> int \<Rightarrow> int list \<Rightarrow>
     (('a UnionFind_scheme \<times> int list) fault + 'a UnionFind_scheme \<times> int list) option"
where
  "unionBySize s u v sz =
     (case find_uf s u of
        None \<Rightarrow> None
      | Some (Inl (e, sf)) \<Rightarrow> Some (Inl (e, (sf, sz)))
      | Some (Inr (rootU, s1)) \<Rightarrow>
          (case find_uf s1 v of
             None \<Rightarrow> None
           | Some (Inl (e, sf)) \<Rightarrow> Some (Inl (e, (sf, sz)))
           | Some (Inr (rootV, s2)) \<Rightarrow>
               if rootU \<noteq> rootV then
                 if \<not> (in_range sz rootU \<and> in_range sz rootV)
                 then Some (Inl (OutOfBounds, (s2, sz)))
                 else if at sz rootU < at sz rootV then
                   (let s3 = s2\<lparr>parent := upd (parent s2) rootU rootV\<rparr>
                    in if \<not> int_ok (at sz rootV + at sz rootU)
                       then Some (Inl (SignedOverflow, (s3, sz)))
                       else Some (Inr (s3, upd sz rootV (at sz rootV + at sz rootU))))
                 else
                   (let s3 = s2\<lparr>parent := upd (parent s2) rootV rootU\<rparr>
                    in if \<not> int_ok (at sz rootU + at sz rootV)
                       then Some (Inl (SignedOverflow, (s3, sz)))
                       else Some (Inr (s3, upd sz rootU (at sz rootU + at sz rootV))))
               else Some (Inr (s2, sz))))"

text \<open>
  \<^verbatim>\<open>bool connected(int u, int v) { return find(u) == find(v); }\<close>
  C++ leaves the order of the two calls open; \<open>connected\<close> runs them left to
  right, \<open>connected_rl\<close> below right to left, and \<open>connected_order\<close> shows that
  the two agree, final state included, whenever both chains end at a root.
\<close>

definition connected ::
  "'a UnionFind_scheme \<Rightarrow> int \<Rightarrow> int \<Rightarrow> ('a UnionFind_scheme fault + bool \<times> 'a UnionFind_scheme) option"
where
  "connected s u v =
     (case find_uf s u of
        None \<Rightarrow> None
      | Some (Inl f) \<Rightarrow> Some (Inl f)
      | Some (Inr (rootU, s1)) \<Rightarrow>
          (case find_uf s1 v of
             None \<Rightarrow> None
           | Some (Inl f) \<Rightarrow> Some (Inl f)
           | Some (Inr (rootV, s2)) \<Rightarrow> Some (Inr (rootU = rootV, s2))))"

section \<open>class UnionFind of the documentation (optimized implementation)\<close>

text \<open>
  The documentation of the repository gives the class with a component counter
  and a union that reports whether it merged. Its \<^verbatim>\<open>find\<close> and
  \<^verbatim>\<open>connected\<close> are those of the class above, word for word.
\<close>

record UnionFind_doc = UnionFind +
  components :: int

definition UnionFind_doc_init :: "int \<Rightarrow> error + UnionFind_doc" where
  "UnionFind_doc_init n =
     (if n < 0 then Inl LengthError
      else Inr \<lparr> parent = init_loop 0 n (replicate (nat n) 0),
                 rank = replicate (nat n) 0,
                 components = n \<rparr>)"

text \<open>\<^verbatim>\<open>bool unite(int x, int y)\<close>: union by rank.\<close>

definition unite ::
  "UnionFind_doc \<Rightarrow> int \<Rightarrow> int \<Rightarrow> (UnionFind_doc fault + bool \<times> UnionFind_doc) option"
where
  "unite s x y =
     (case find_uf s x of
        None \<Rightarrow> None
      | Some (Inl f) \<Rightarrow> Some (Inl f)
      | Some (Inr (rootX, s1)) \<Rightarrow>
          (case find_uf s1 y of
             None \<Rightarrow> None
           | Some (Inl f) \<Rightarrow> Some (Inl f)
           | Some (Inr (rootY, s2)) \<Rightarrow>
               if rootX = rootY then Some (Inr (False, s2))
               else if \<not> (in_range (rank s2) rootX \<and> in_range (rank s2) rootY)
               then Some (Inl (OutOfBounds, s2))
               else
                 (let r3 =
                    (if at (rank s2) rootX < at (rank s2) rootY
                     then Inr (s2\<lparr>parent := upd (parent s2) rootX rootY\<rparr>)
                     else if at (rank s2) rootX > at (rank s2) rootY
                     then Inr (s2\<lparr>parent := upd (parent s2) rootY rootX\<rparr>)
                     else
                       (let s3 = s2\<lparr>parent := upd (parent s2) rootY rootX\<rparr>
                        in if at (rank s3) rootX = INT_MAX then Inl (SignedOverflow, s3)
                           else Inr (s3\<lparr>rank := upd (rank s3) rootX (at (rank s3) rootX + 1)\<rparr>)))
                  in case r3 of
                       Inl f \<Rightarrow> Some (Inl f)
                     | Inr s4 \<Rightarrow>
                         if components s4 = INT_MIN then Some (Inl (SignedOverflow, s4))
                         else Some (Inr (True, s4\<lparr>components := components s4 - 1\<rparr>)))))"

definition getComponents :: "UnionFind_doc \<Rightarrow> int" where
  "getComponents s = components s"

text \<open>
  The documentation's callers: \<^verbatim>\<open>countComponents\<close> unites every edge and
  reads the counter; \<^verbatim>\<open>hasCycle\<close> stops at the first edge whose union
  reports no merge.
\<close>

fun unite_all :: "UnionFind_doc \<Rightarrow> (int \<times> int) list \<Rightarrow> (UnionFind_doc fault + UnionFind_doc) option" where
  "unite_all s [] = Some (Inr s)"
| "unite_all s ((a, b) # es) =
     (case unite s a b of
        None \<Rightarrow> None
      | Some (Inl f) \<Rightarrow> Some (Inl f)
      | Some (Inr (m, s1)) \<Rightarrow> unite_all s1 es)"

definition countComponents :: "int \<Rightarrow> (int \<times> int) list \<Rightarrow> (error + int) option" where
  "countComponents n edges =
     (case UnionFind_doc_init n of
        Inl e \<Rightarrow> Some (Inl e)
      | Inr uf \<Rightarrow>
          (case unite_all uf edges of
             None \<Rightarrow> None
           | Some (Inl (e, sf)) \<Rightarrow> Some (Inl e)
           | Some (Inr s) \<Rightarrow> Some (Inr (getComponents s))))"

fun hasCycle_loop :: "UnionFind_doc \<Rightarrow> (int \<times> int) list \<Rightarrow> (error + bool) option" where
  "hasCycle_loop s [] = Some (Inr False)"
| "hasCycle_loop s ((a, b) # es) =
     (case unite s a b of
        None \<Rightarrow> None
      | Some (Inl (e, sf)) \<Rightarrow> Some (Inl e)
      | Some (Inr (m, s1)) \<Rightarrow> if \<not> m then Some (Inr True) else hasCycle_loop s1 es)"

definition hasCycle :: "int \<Rightarrow> (int \<times> int) list \<Rightarrow> (error + bool) option" where
  "hasCycle n edges =
     (case UnionFind_doc_init n of
        Inl e \<Rightarrow> Some (Inl e)
      | Inr uf \<Rightarrow> hasCycle_loop uf edges)"

section \<open>Sequences of calls\<close>

datatype call =
    Find int
  | UnionSets int int
  | UnionSets3 int int bool
  | UnionBySize int int "int list"
  | Connected int int

definition do_call :: "UnionFind \<Rightarrow> call \<Rightarrow> (UnionFind fault + UnionFind) option" where
  "do_call s c =
     (case c of
        Find u \<Rightarrow>
          (case find_uf s u of None \<Rightarrow> None | Some (Inl f) \<Rightarrow> Some (Inl f)
           | Some (Inr (r, s1)) \<Rightarrow> Some (Inr s1))
      | UnionSets u v \<Rightarrow> unionSets s u v
      | UnionSets3 u v b \<Rightarrow> unionSets3 s u v b
      | UnionBySize u v sz \<Rightarrow>
          (case unionBySize s u v sz of None \<Rightarrow> None | Some (Inl (e, (sf, szf))) \<Rightarrow> Some (Inl (e, sf))
           | Some (Inr (s1, sz1)) \<Rightarrow> Some (Inr s1))
      | Connected u v \<Rightarrow>
          (case connected s u v of None \<Rightarrow> None | Some (Inl f) \<Rightarrow> Some (Inl f)
           | Some (Inr (b, s1)) \<Rightarrow> Some (Inr s1)))"

fun run :: "UnionFind \<Rightarrow> call list \<Rightarrow> (UnionFind fault + UnionFind) option" where
  "run s [] = Some (Inr s)"
| "run s (c # cs) =
     (case do_call s c of
        None \<Rightarrow> None
      | Some (Inl f) \<Rightarrow> Some (Inl f)
      | Some (Inr s1) \<Rightarrow> run s1 cs)"

section \<open>Roots, parent chains and the invariant\<close>

text \<open>\<open>chain p u r\<close>: following the parents from \<open>u\<close> ends at the root \<open>r\<close>.\<close>

inductive chain :: "int list \<Rightarrow> int \<Rightarrow> int \<Rightarrow> bool" where
  chain_root: "in_range p u \<Longrightarrow> at p u = u \<Longrightarrow> chain p u u"
| chain_step: "in_range p u \<Longrightarrow> at p u \<noteq> u \<Longrightarrow> chain p (at p u) r \<Longrightarrow> chain p u r"

code_pred (modes: i \<Rightarrow> i \<Rightarrow> i \<Rightarrow> bool, i \<Rightarrow> i \<Rightarrow> o \<Rightarrow> bool) chain .

text \<open>\<open>visited p u w\<close>: the traversal that starts at \<open>u\<close> passes through \<open>w\<close>.\<close>

inductive visited :: "int list \<Rightarrow> int \<Rightarrow> int \<Rightarrow> bool" where
  visited_self: "visited p u u"
| visited_step: "at p u \<noteq> u \<Longrightarrow> visited p (at p u) w \<Longrightarrow> visited p u w"

definition is_root :: "int list \<Rightarrow> int \<Rightarrow> bool" where
  "is_root p r \<longleftrightarrow> in_range p r \<and> at p r = r"

definition roots :: "int list \<Rightarrow> int set" where
  "roots p = {r. is_root p r}"

definition set_of :: "int list \<Rightarrow> int \<Rightarrow> int set" where
  "set_of p r = {v. chain p v r}"

definition wf_parent :: "int list \<Rightarrow> bool" where
  "wf_parent p \<longleftrightarrow> (\<forall>u. in_range p u \<longrightarrow> (\<exists>r. chain p u r))"

text \<open>
  The invariant of the object: the two vectors have the same length, which fits an
  \<^verbatim>\<open>int\<close>; every parent chain ends at a root; and every rank is non-negative and,
  added to the number of roots, at most the number of elements (each increment of a rank
  comes with the loss of a root), so that \<^verbatim>\<open>rank[rootU]++\<close> cannot overflow.
\<close>

definition uf_inv :: "'a UnionFind_scheme \<Rightarrow> bool" where
  "uf_inv s \<longleftrightarrow>
     length (rank s) = length (parent s) \<and>
     int (length (parent s)) \<le> INT_MAX \<and>
     wf_parent (parent s) \<and>
     (\<forall>i. in_range (rank s) i \<longrightarrow> 0 \<le> at (rank s) i \<and>
            at (rank s) i + int (card (roots (parent s))) \<le> int (length (parent s)))"

text \<open>The documented class adds: the counter is the number of roots.\<close>

definition doc_inv :: "UnionFind_doc \<Rightarrow> bool" where
  "doc_inv s \<longleftrightarrow> uf_inv s \<and> components s = int (card (roots (parent s)))"

text \<open>What path compression leaves behind.\<close>

definition compressed :: "int list \<Rightarrow> int \<Rightarrow> int \<Rightarrow> int list \<Rightarrow> bool" where
  "compressed p u r p' \<longleftrightarrow>
     length p' = length p \<and>
     (\<forall>w. in_range p w \<longrightarrow> at p' w = (if visited p u w then r else at p w))"

text \<open>\<open>same_sets p q\<close>: in \<open>q\<close> every element has the root it has in \<open>p\<close>.\<close>

definition same_sets :: "int list \<Rightarrow> int list \<Rightarrow> bool" where
  "same_sets p q \<longleftrightarrow> length q = length p \<and> (\<forall>v x. chain q v x = chain p v x)"

text \<open>The parent array the constructor builds: every element is its own parent.\<close>

definition identity_parent :: "int list \<Rightarrow> bool" where
  "identity_parent p \<longleftrightarrow> (\<forall>j. in_range p j \<longrightarrow> at p j = j)"

text \<open>\<open>same_root p a b\<close>: the chains of \<open>a\<close> and \<open>b\<close> end at one root.\<close>

definition same_root :: "int list \<Rightarrow> int \<Rightarrow> int \<Rightarrow> bool" where
  "same_root p a b \<longleftrightarrow> (\<exists>r. chain p a r \<and> chain p b r)"

text \<open>\<open>linked p a b q\<close>: \<open>q\<close> is \<open>p\<close> after some path compressions and after the
  root \<open>b\<close> has been attached under the root \<open>a\<close>.\<close>

definition linked :: "int list \<Rightarrow> int \<Rightarrow> int \<Rightarrow> int list \<Rightarrow> bool" where
  "linked p a b q \<longleftrightarrow> (\<exists>p2. same_sets p p2 \<and> q = upd p2 b a)"

text \<open>The two elements a call unites, if it is a union.\<close>

fun union_args :: "call \<Rightarrow> (int \<times> int) option" where
  "union_args (Find u) = None"
| "union_args (UnionSets u v) = Some (u, v)"
| "union_args (UnionSets3 u v b) = Some (u, v)"
| "union_args (UnionBySize u v sz) = Some (u, v)"
| "union_args (Connected u v) = None"

text \<open>What one successful call does to a state that satisfies the invariant.\<close>

definition call_effect :: "int list \<Rightarrow> call \<Rightarrow> int list \<Rightarrow> bool" where
  "call_effect p c q \<longleftrightarrow>
     same_sets p q \<or>
     (\<exists>u v ru rv. union_args c = Some (u, v) \<and> chain p u ru \<and> chain p v rv \<and> ru \<noteq> rv \<and>
        (linked p ru rv q \<or> linked p rv ru q))"

text \<open>\<open>sizes_exact p sz\<close>: the size vector records, at every root, the number of elements
  of the root's set.\<close>

definition sizes_exact :: "int list \<Rightarrow> int list \<Rightarrow> bool" where
  "sizes_exact p sz \<longleftrightarrow>
     length sz = length p \<and> (\<forall>r. is_root p r \<longrightarrow> at sz r = int (card (set_of p r)))"

text \<open>\<open>touches p r c\<close>: the call \<open>c\<close> is a union one of whose arguments lies in the set of
  the root \<open>r\<close>.\<close>

definition touches :: "int list \<Rightarrow> int \<Rightarrow> call \<Rightarrow> bool" where
  "touches p r c \<longleftrightarrow>
     (case union_args c of None \<Rightarrow> False | Some (u, v) \<Rightarrow> chain p u r \<or> chain p v r)"

text \<open>The other order of evaluation that C++ allows for \<^verbatim>\<open>find(u) == find(v)\<close>.\<close>

definition connected_rl ::
  "'a UnionFind_scheme \<Rightarrow> int \<Rightarrow> int \<Rightarrow> ('a UnionFind_scheme fault + bool \<times> 'a UnionFind_scheme) option"
where
  "connected_rl s u v =
     (case find_uf s v of
        None \<Rightarrow> None
      | Some (Inl f) \<Rightarrow> Some (Inl f)
      | Some (Inr (rootV, s1)) \<Rightarrow>
          (case find_uf s1 u of
             None \<Rightarrow> None
           | Some (Inl f) \<Rightarrow> Some (Inl f)
           | Some (Inr (rootU, s2)) \<Rightarrow> Some (Inr (rootU = rootV, s2))))"

section \<open>The call stack\<close>

text \<open>
  \<^verbatim>\<open>find\<close> is recursive and not a tail call: it occupies one stack frame per
  node on the chain until the root answers. \<open>find_uf\<close> above is \<^verbatim>\<open>find\<close> on a
  stack without bound. \<open>find_frames k\<close> is \<^verbatim>\<open>find\<close> on a stack with room for
  \<open>k\<close> frames of \<^verbatim>\<open>find\<close>: the call that finds no frame left is the stack
  overflow, which happens on the way down, before anything is written.
\<close>

fun find_frames ::
  "nat \<Rightarrow> 'a UnionFind_scheme \<Rightarrow> int \<Rightarrow> 'a UnionFind_scheme fault + int \<times> 'a UnionFind_scheme"
where
  "find_frames 0 s u = Inl (StackOverflow, s)"
| "find_frames (Suc k) s u =
     (if \<not> in_range (parent s) u then Inl (OutOfBounds, s)
      else if at (parent s) u \<noteq> u then
        (case find_frames k s (at (parent s) u) of
           Inl f \<Rightarrow> Inl f
         | Inr (r, s1) \<Rightarrow>
             (let s2 = s1\<lparr>parent := upd (parent s1) u r\<rparr>
              in Inr (at (parent s2) u, s2)))
      else Inr (at (parent s) u, s))"

text \<open>The other operations on that stack: they are the ones above, with \<open>find_frames k\<close>
  for \<open>find_uf\<close>.\<close>

definition unionSets_frames ::
  "nat \<Rightarrow> 'a UnionFind_scheme \<Rightarrow> int \<Rightarrow> int \<Rightarrow> 'a UnionFind_scheme fault + 'a UnionFind_scheme"
where
  "unionSets_frames k s u v =
     (case find_frames k s u of
        Inl f \<Rightarrow> Inl f
      | Inr (rootU, s1) \<Rightarrow>
          (case find_frames k s1 v of
             Inl f \<Rightarrow> Inl f
           | Inr (rootV, s2) \<Rightarrow>
               if rootU \<noteq> rootV then
                 if \<not> (in_range (rank s2) rootU \<and> in_range (rank s2) rootV)
                 then Inl (OutOfBounds, s2)
                 else if at (rank s2) rootU < at (rank s2) rootV
                 then Inr (s2\<lparr>parent := upd (parent s2) rootU rootV\<rparr>)
                 else if at (rank s2) rootU > at (rank s2) rootV
                 then Inr (s2\<lparr>parent := upd (parent s2) rootV rootU\<rparr>)
                 else
                   (let s3 = s2\<lparr>parent := upd (parent s2) rootV rootU\<rparr>
                    in if at (rank s3) rootU = INT_MAX then Inl (SignedOverflow, s3)
                       else Inr (s3\<lparr>rank := upd (rank s3) rootU (at (rank s3) rootU + 1)\<rparr>))
               else Inr s2))"

definition unionSets3_frames ::
  "nat \<Rightarrow> 'a UnionFind_scheme \<Rightarrow> int \<Rightarrow> int \<Rightarrow> bool \<Rightarrow> 'a UnionFind_scheme fault + 'a UnionFind_scheme"
where
  "unionSets3_frames k s u v byRank =
     (if byRank then unionSets_frames k s u v
      else
        (case find_frames k s u of
           Inl f \<Rightarrow> Inl f
         | Inr (rootU, s1) \<Rightarrow>
             (case find_frames k s1 v of
                Inl f \<Rightarrow> Inl f
              | Inr (rootV, s2) \<Rightarrow>
                  if rootU \<noteq> rootV
                  then Inr (s2\<lparr>parent := upd (parent s2) rootV rootU\<rparr>)
                  else Inr s2)))"

definition unionBySize_frames ::
  "nat \<Rightarrow> 'a UnionFind_scheme \<Rightarrow> int \<Rightarrow> int \<Rightarrow> int list \<Rightarrow>
     ('a UnionFind_scheme \<times> int list) fault + 'a UnionFind_scheme \<times> int list"
where
  "unionBySize_frames k s u v sz =
     (case find_frames k s u of
        Inl (e, sf) \<Rightarrow> Inl (e, (sf, sz))
      | Inr (rootU, s1) \<Rightarrow>
          (case find_frames k s1 v of
             Inl (e, sf) \<Rightarrow> Inl (e, (sf, sz))
           | Inr (rootV, s2) \<Rightarrow>
               if rootU \<noteq> rootV then
                 if \<not> (in_range sz rootU \<and> in_range sz rootV)
                 then Inl (OutOfBounds, (s2, sz))
                 else if at sz rootU < at sz rootV then
                   (let s3 = s2\<lparr>parent := upd (parent s2) rootU rootV\<rparr>
                    in if \<not> int_ok (at sz rootV + at sz rootU)
                       then Inl (SignedOverflow, (s3, sz))
                       else Inr (s3, upd sz rootV (at sz rootV + at sz rootU)))
                 else
                   (let s3 = s2\<lparr>parent := upd (parent s2) rootV rootU\<rparr>
                    in if \<not> int_ok (at sz rootU + at sz rootV)
                       then Inl (SignedOverflow, (s3, sz))
                       else Inr (s3, upd sz rootU (at sz rootU + at sz rootV)))
               else Inr (s2, sz)))"

definition connected_frames ::
  "nat \<Rightarrow> 'a UnionFind_scheme \<Rightarrow> int \<Rightarrow> int \<Rightarrow> 'a UnionFind_scheme fault + bool \<times> 'a UnionFind_scheme"
where
  "connected_frames k s u v =
     (case find_frames k s u of
        Inl f \<Rightarrow> Inl f
      | Inr (rootU, s1) \<Rightarrow>
          (case find_frames k s1 v of
             Inl f \<Rightarrow> Inl f
           | Inr (rootV, s2) \<Rightarrow> Inr (rootU = rootV, s2)))"

text \<open>\<^verbatim>\<open>connected\<close> with \<^verbatim>\<open>find(v)\<close> evaluated first, on that stack.\<close>

definition connected_rl_frames ::
  "nat \<Rightarrow> 'a UnionFind_scheme \<Rightarrow> int \<Rightarrow> int \<Rightarrow> 'a UnionFind_scheme fault + bool \<times> 'a UnionFind_scheme"
where
  "connected_rl_frames k s u v =
     (case find_frames k s v of
        Inl f \<Rightarrow> Inl f
      | Inr (rootV, s1) \<Rightarrow>
          (case find_frames k s1 u of
             Inl f \<Rightarrow> Inl f
           | Inr (rootU, s2) \<Rightarrow> Inr (rootU = rootV, s2)))"

text \<open>\<open>depth p u d\<close>: the chain of \<open>u\<close> has \<open>d\<close> nodes, the root included.\<close>

inductive depth :: "int list \<Rightarrow> int \<Rightarrow> nat \<Rightarrow> bool" where
  depth_root: "in_range p u \<Longrightarrow> at p u = u \<Longrightarrow> depth p u 1"
| depth_step: "in_range p u \<Longrightarrow> at p u \<noteq> u \<Longrightarrow> depth p (at p u) d \<Longrightarrow> depth p u (Suc d)"

text \<open>The calls \<^verbatim>\<open>unionSets(1, 0, false)\<close>, \<^verbatim>\<open>unionSets(2, 1, false)\<close>, \<open>\<dots>\<close>,
  \<^verbatim>\<open>unionSets(n - 1, n - 2, false)\<close>.\<close>

definition deep_calls :: "nat \<Rightarrow> call list" where
  "deep_calls n = map (\<lambda>k. UnionSets3 (int k + 1) (int k) False) [0..<n - 1]"

text \<open>The parent array after the first \<open>k\<close> of the calls \<open>deep_calls n\<close>.\<close>

definition ladder :: "nat \<Rightarrow> nat \<Rightarrow> int list" where
  "ladder n k = map (\<lambda>i. if i < k then int i + 1 else int i) [0..<n]"

section \<open>Vectors, chains and compression\<close>

lemma in_range_upd: "in_range (upd p i v) j = in_range p j"
  by (simp add: in_range_def upd_def)

lemma length_upd: "length (upd p i v) = length p"
  by (simp add: upd_def)

lemma at_upd_same: "in_range p i \<Longrightarrow> at (upd p i v) i = v"
  by (simp add: in_range_def at_def upd_def nat_less_iff)

lemma at_upd_other: "0 \<le> i \<Longrightarrow> 0 \<le> j \<Longrightarrow> j \<noteq> i \<Longrightarrow> at (upd p i v) j = at p j"
  by (simp add: at_def upd_def)

lemma at_upd: "in_range p i \<Longrightarrow> in_range p j \<Longrightarrow> at (upd p i v) j = (if j = i then v else at p j)"
  by (simp add: at_upd_same at_upd_other in_range_def)

lemma list_eq_atI:
  assumes "length p = length q" and "\<And>i. in_range p i \<Longrightarrow> at p i = at q i"
  shows "p = q"
proof (rule nth_equalityI)
  show "length p = length q" by fact
next
  fix i assume "i < length p"
  then have "in_range p (int i)" by (simp add: in_range_def)
  from assms(2)[OF this] show "p ! i = q ! i" by (simp add: at_def)
qed

lemma chain_in_range: "chain p u r \<Longrightarrow> in_range p u"
  by (induction rule: chain.induct) auto

lemma chain_is_root: "chain p u r \<Longrightarrow> is_root p r"
  by (induction rule: chain.induct) (auto simp: is_root_def)

lemma chain_unique: "chain p u r \<Longrightarrow> chain p u r' \<Longrightarrow> r' = r"
proof (induction arbitrary: r' rule: chain.induct)
  case (chain_root p u)
  from chain_root.prems chain_root.hyps show ?case
    by (cases rule: chain.cases) auto
next
  case (chain_step p u r)
  from chain_step.prems chain_step.hyps show ?case
    by (cases rule: chain.cases) (auto intro: chain_step.IH)
qed

lemma is_root_chain: "is_root p r \<Longrightarrow> chain p r r"
  by (simp add: is_root_def chain_root)

lemma chain_root_eq: "is_root p u \<Longrightarrow> chain p u r \<Longrightarrow> r = u"
  using chain_unique is_root_chain by blast

lemma visited_chain: "visited p u w \<Longrightarrow> chain p u r \<Longrightarrow> chain p w r"
proof (induction rule: visited.induct)
  case (visited_self p u)
  then show ?case by simp
next
  case (visited_step p u w)
  from visited_step.prems visited_step.hyps(1) have "chain p (at p u) r"
    by (cases rule: chain.cases) auto
  then show ?case by (rule visited_step.IH)
qed

lemma visited_root: "at p u = u \<Longrightarrow> visited p u w \<longleftrightarrow> w = u"
  by (auto elim: visited.cases intro: visited_self)

lemma visited_nonroot: "at p u \<noteq> u \<Longrightarrow> visited p u w \<longleftrightarrow> w = u \<or> visited p (at p u) w"
  by (auto elim: visited.cases intro: visited.intros)

lemma find_uf_chain:
  "chain (parent s) u r \<Longrightarrow>
   \<exists>p'. find_uf s u = Some (Inr (r, s\<lparr>parent := p'\<rparr>)) \<and> compressed (parent s) u r p'"
proof (induction "parent s" u r rule: chain.induct)
  case (chain_root u)
  then have "find_uf s u = Some (Inr (u, s\<lparr>parent := parent s\<rparr>))"
    by (subst find_uf.simps) simp
  moreover have "compressed (parent s) u u (parent s)"
    using chain_root by (simp add: compressed_def visited_root)
  ultimately show ?case by blast
next
  case (chain_step u r)
  then obtain p1 where f1: "find_uf s (at (parent s) u) = Some (Inr (r, s\<lparr>parent := p1\<rparr>))"
    and c1: "compressed (parent s) (at (parent s) u) r p1" by blast
  have ru: "in_range p1 u" using chain_step.hyps(1) c1 by (simp add: compressed_def in_range_def)
  have "find_uf s u = Some (Inr (r, s\<lparr>parent := upd p1 u r\<rparr>))"
    using chain_step.hyps(1,2) f1 ru by (subst find_uf.simps) (simp add: at_upd_same)
  moreover have "compressed (parent s) u r (upd p1 u r)"
    unfolding compressed_def
  proof (intro conjI allI impI)
    show "length (upd p1 u r) = length (parent s)" using c1 by (simp add: compressed_def length_upd)
  next
    fix w assume w: "in_range (parent s) w"
    then have w1: "in_range p1 w" using c1 by (simp add: compressed_def in_range_def)
    show "at (upd p1 u r) w = (if visited (parent s) u w then r else at (parent s) w)"
      using c1 w chain_step.hyps(2) by (simp add: at_upd[OF ru w1] visited_nonroot compressed_def)
  qed
  ultimately show ?case by blast
qed

text \<open>On any state at all, \<open>find\<close> returns a value only along a chain that ends at a root.\<close>

lemma find_uf_returns_chain_aux:
  assumes a: "find_uf s0 u0 = Some y0"
  shows "\<forall>r s'. y0 = Inr (r, s') \<longrightarrow>
           chain (parent s0) u0 r \<and> length (parent s') = length (parent s0)"
proof (rule find_uf.raw_induct[where P = "\<lambda>s u y. \<forall>r s'. y = Inr (r, s') \<longrightarrow>
           chain (parent s) u r \<and> length (parent s') = length (parent s)", OF _ a])
  fix f :: "'a UnionFind_scheme \<Rightarrow> int \<Rightarrow> ('a UnionFind_scheme fault + int \<times> 'a UnionFind_scheme) option"
    and s u y
  assume IH: "\<And>s u y. f s u = Some y \<Longrightarrow> \<forall>r s'. y = Inr (r, s') \<longrightarrow>
           chain (parent s) u r \<and> length (parent s') = length (parent s)"
    and body: "(if \<not> in_range (parent s) u then Some (Inl (OutOfBounds, s))
      else if at (parent s) u \<noteq> u
           then Option.bind (f s (at (parent s) u))
                 (\<lambda>res. case res of Inl f \<Rightarrow> Some (Inl f)
                        | Inr (r, s1) \<Rightarrow>
                            let s2 = s1\<lparr>parent := upd (parent s1) u r\<rparr>
                            in Some (Inr (at (parent s2) u, s2)))
           else Some (Inr (at (parent s) u, s))) = Some y"
  show "\<forall>r s'. y = Inr (r, s') \<longrightarrow>
           chain (parent s) u r \<and> length (parent s') = length (parent s)"
  proof (intro allI impI)
    fix r s' assume y: "y = Inr (r, s')"
    have t: "in_range (parent s) u"
      using body y by (auto split: if_splits)
    show "chain (parent s) u r \<and> length (parent s') = length (parent s)"
    proof (cases "at (parent s) u = u")
      case True
      then have "r = u" "s' = s" using body y t by simp_all
      then show ?thesis using True t by (simp add: chain_root)
    next
      case False
      from body y t False obtain r1 s1 where
        f: "f s (at (parent s) u) = Some (Inr (r1, s1))" and
        e: "r = at (upd (parent s1) u r1) u" "s' = s1\<lparr>parent := upd (parent s1) u r1\<rparr>"
        by (auto simp: Let_def split: Option.bind_splits sum.splits)
      from IH[OF f] have c1: "chain (parent s) (at (parent s) u) r1"
        and l1: "length (parent s1) = length (parent s)" by simp_all
      have "in_range (parent s1) u" using t l1 by (simp add: in_range_def)
      then have "r = r1" using e by (simp add: at_upd_same)
      moreover have "length (parent s') = length (parent s)" using e l1 by (simp add: length_upd)
      moreover have "chain (parent s) u r1" using t False c1 by (rule chain_step)
      ultimately show ?thesis by simp
    qed
  qed
qed

lemma find_uf_returns_iff:
  "(\<exists>s'. find_uf s u = Some (Inr (r, s'))) \<longleftrightarrow> chain (parent s) u r"
  using find_uf_returns_chain_aux find_uf_chain by blast

lemma compressed_in_range: "compressed p u r p' \<Longrightarrow> in_range p' w = in_range p w"
  by (simp add: compressed_def in_range_def)

lemma compressed_root:
  assumes c: "chain p u r" and k: "compressed p u r p'" and v: "is_root p v"
  shows "at p' v = v"
proof -
  have iv: "in_range p v" and av: "at p v = v" using v by (simp_all add: is_root_def)
  show ?thesis
  proof (cases "visited p u v")
    case True
    then have "chain p v r" using c by (rule visited_chain)
    then have "r = v" using v by (rule chain_root_eq[rotated])
    then show ?thesis using k iv True by (simp add: compressed_def)
  next
    case False
    then show ?thesis using k iv av by (simp add: compressed_def)
  qed
qed

lemma compressed_chain_fwd:
  "chain p v x \<Longrightarrow> chain p u r \<Longrightarrow> compressed p u r p' \<Longrightarrow> chain p' v x"
proof (induction rule: chain.induct)
  case (chain_root p v)
  have "is_root p v" using chain_root.hyps by (simp add: is_root_def)
  then have "at p' v = v" using chain_root.prems compressed_root by blast
  moreover have "in_range p' v" using chain_root by (simp add: compressed_in_range)
  ultimately show ?case by (rule chain.chain_root[rotated])
next
  case (chain_step p v x)
  have iv: "in_range p' v" using chain_step by (simp add: compressed_in_range)
  have ih: "chain p' (at p v) x" using chain_step by blast
  show ?case
  proof (cases "visited p u v")
    case True
    have vx: "chain p v x" using chain_step.hyps by (rule chain.chain_step)
    have "chain p v r" using True chain_step.prems(1) by (rule visited_chain)
    then have xr: "x = r" using vx by (rule chain_unique)
    have rr: "is_root p r" using chain_step.prems(1) by (rule chain_is_root)
    then have "at p' r = r" using chain_step.prems compressed_root by blast
    moreover have "in_range p' r" using rr chain_step.prems(2) by (simp add: compressed_in_range is_root_def)
    ultimately have crr: "chain p' r r" by (simp add: chain.chain_root)
    have a: "at p' v = r" using chain_step.prems(2) chain_step.hyps(1) True by (simp add: compressed_def)
    have "r \<noteq> v" using rr chain_step.hyps(2) by (auto simp: is_root_def)
    then show ?thesis using iv a crr xr by (simp add: chain.chain_step)
  next
    case False
    then have a: "at p' v = at p v" using chain_step.prems(2) chain_step.hyps(1) by (simp add: compressed_def)
    show ?thesis using iv a chain_step.hyps(2) ih by (simp add: chain.chain_step)
  qed
qed

lemma compressed_chain_bwd:
  "chain p' v x \<Longrightarrow> chain p u r \<Longrightarrow> compressed p u r p' \<Longrightarrow> chain p v x"
proof (induction rule: chain.induct)
  case (chain_root p' v)
  have iv: "in_range p v" using chain_root by (simp add: compressed_in_range)
  show ?case
  proof (cases "visited p u v")
    case True
    then have "chain p v r" using chain_root.prems(1) by (rule visited_chain)
    moreover have "r = v" using chain_root.prems(2) chain_root.hyps(2) iv True by (simp add: compressed_def)
    ultimately show ?thesis by simp
  next
    case False
    then have "at p v = v" using chain_root.prems(2) chain_root.hyps(2) iv by (simp add: compressed_def)
    then show ?thesis using iv by (simp add: chain.chain_root)
  qed
next
  case (chain_step p' v x)
  have iv: "in_range p v" using chain_step by (simp add: compressed_in_range)
  have ih: "chain p (at p' v) x" using chain_step by blast
  show ?case
  proof (cases "visited p u v")
    case True
    then have vr: "chain p v r" using chain_step.prems(1) by (rule visited_chain)
    have a: "at p' v = r" using chain_step.prems(2) iv True by (simp add: compressed_def)
    have "is_root p r" using chain_step.prems(1) by (rule chain_is_root)
    then have "x = r" using ih a chain_root_eq by simp
    then show ?thesis using vr by simp
  next
    case False
    then have a: "at p' v = at p v" using chain_step.prems(2) iv by (simp add: compressed_def)
    then show ?thesis using iv ih chain_step.hyps(2) by (simp add: chain.chain_step)
  qed
qed

lemma compressed_chain_iff:
  "chain p u r \<Longrightarrow> compressed p u r p' \<Longrightarrow> chain p' v x \<longleftrightarrow> chain p v x"
  using compressed_chain_fwd compressed_chain_bwd by blast

lemma is_root_iff_chain: "is_root p r \<longleftrightarrow> chain p r r"
  using chain_is_root is_root_chain by blast

lemma compressed_is_root:
  "chain p u r \<Longrightarrow> compressed p u r p' \<Longrightarrow> is_root p' v \<longleftrightarrow> is_root p v"
  by (simp add: is_root_iff_chain compressed_chain_iff)

lemma compressed_roots: "chain p u r \<Longrightarrow> compressed p u r p' \<Longrightarrow> roots p' = roots p"
  by (simp add: roots_def compressed_is_root)

lemma compressed_wf: "chain p u r \<Longrightarrow> compressed p u r p' \<Longrightarrow> wf_parent p \<Longrightarrow> wf_parent p'"
  by (simp add: wf_parent_def compressed_in_range compressed_chain_iff)

text \<open>Linking the root \<open>b\<close> under the root \<open>a\<close>.\<close>

lemma link_chain_fwd:
  "chain p v x \<Longrightarrow> is_root p a \<Longrightarrow> is_root p b \<Longrightarrow> a \<noteq> b \<Longrightarrow>
   chain (upd p b a) v (if x = b then a else x)"
proof (induction rule: chain.induct)
  case (chain_root p v)
  have ia: "in_range p a" and ib: "in_range p b" and aa: "at p a = a"
    using chain_root.prems by (simp_all add: is_root_def)
  have c1: "in_range (upd p b a) a" using ia by (simp add: in_range_upd)
  have c2: "at (upd p b a) a = a" using ia ib aa chain_root.prems(3) by (simp add: at_upd)
  have caa: "chain (upd p b a) a a" using c1 c2 by (rule chain.chain_root)
  show ?case
  proof (cases "v = b")
    case True
    have d1: "in_range (upd p b a) b" using ib by (simp add: in_range_upd)
    have d2: "at (upd p b a) b = a" using ib by (simp add: at_upd_same)
    have d3: "at (upd p b a) b \<noteq> b" using d2 chain_root.prems(3) by simp
    have d4: "chain (upd p b a) (at (upd p b a) b) a" using caa by (simp only: d2)
    have "chain (upd p b a) b a" using d1 d3 d4 by (rule chain.chain_step)
    then show ?thesis using True by simp
  next
    case False
    have e1: "in_range (upd p b a) v" using chain_root.hyps(1) by (simp add: in_range_upd)
    have e2: "at (upd p b a) v = v" using chain_root.hyps ib False by (simp add: at_upd)
    have "chain (upd p b a) v v" using e1 e2 by (rule chain.chain_root)
    then show ?thesis using False by simp
  qed
next
  case (chain_step p v x)
  have ib: "in_range p b" and bb: "at p b = b" using chain_step.prems by (simp_all add: is_root_def)
  have "v \<noteq> b" using chain_step.hyps(2) bb by auto
  then have a: "at (upd p b a) v = at p v" using chain_step.hyps(1) ib by (simp add: at_upd)
  have f1: "in_range (upd p b a) v" using chain_step.hyps(1) by (simp add: in_range_upd)
  have f2: "at (upd p b a) v \<noteq> v" using a chain_step.hyps(2) by simp
  have "chain (upd p b a) (at p v) (if x = b then a else x)"
    using chain_step.prems by (rule chain_step.IH)
  then have f3: "chain (upd p b a) (at (upd p b a) v) (if x = b then a else x)" using a by simp
  show ?case using f1 f2 f3 by (rule chain.chain_step)
qed

lemma link_chain_bwd:
  "chain p' v x \<Longrightarrow> p' = upd p b a \<Longrightarrow> is_root p a \<Longrightarrow> is_root p b \<Longrightarrow> a \<noteq> b \<Longrightarrow>
   \<exists>y. chain p v y \<and> x = (if y = b then a else y)"
proof (induction rule: chain.induct)
  case (chain_root p' v)
  have ib: "in_range p b" using chain_root.prems by (simp add: is_root_def)
  have iv: "in_range p v" using chain_root by (simp add: in_range_upd)
  have vb: "v \<noteq> b" using chain_root.hyps(2) chain_root.prems ib by (auto simp: at_upd_same)
  then have "at p v = v" using chain_root.hyps(2) chain_root.prems(1) ib iv by (simp add: at_upd)
  with iv have "chain p v v" by (rule chain.chain_root)
  then show ?case using vb by auto
next
  case (chain_step p' v x)
  have ib: "in_range p b" and bb: "at p b = b" using chain_step.prems by (simp_all add: is_root_def)
  have iv: "in_range p v" using chain_step by (simp add: in_range_upd)
  have "\<exists>y. chain p (at p' v) y \<and> x = (if y = b then a else y)"
    using chain_step.prems by (rule chain_step.IH)
  then obtain y where y: "chain p (at p' v) y" and xy: "x = (if y = b then a else y)"
    by blast
  show ?case
  proof (cases "v = b")
    case True
    then have "at p' v = a" using chain_step.prems(1) ib by (simp add: at_upd_same)
    then have "chain p a y" using y by simp
    with chain_step.prems(2) have "y = a" by (rule chain_root_eq)
    then have "x = a" using xy chain_step.prems(4) by simp
    moreover have "chain p b b" using chain_step.prems(3) by (rule is_root_chain)
    ultimately show ?thesis using True by auto
  next
    case False
    then have a: "at p' v = at p v" using chain_step.prems(1) ib iv by (simp add: at_upd)
    have g2: "at p v \<noteq> v" using a chain_step.hyps(2) by simp
    have g3: "chain p (at p v) y" using y a by simp
    have "chain p v y" using iv g2 g3 by (rule chain.chain_step)
    then show ?thesis using xy by blast
  qed
qed

lemma link_chain_iff:
  assumes "is_root p a" "is_root p b" "a \<noteq> b"
  shows "chain (upd p b a) v x \<longleftrightarrow> (chain p v x \<and> x \<noteq> b) \<or> (chain p v b \<and> x = a)"
proof
  assume "chain (upd p b a) v x"
  from link_chain_bwd[OF this refl assms] show "(chain p v x \<and> x \<noteq> b) \<or> (chain p v b \<and> x = a)"
    using assms(3) by (auto split: if_splits)
next
  assume "(chain p v x \<and> x \<noteq> b) \<or> (chain p v b \<and> x = a)"
  then show "chain (upd p b a) v x"
    using link_chain_fwd[OF _ assms, of v x] link_chain_fwd[OF _ assms, of v b] by auto
qed

lemma link_wf:
  assumes w: "wf_parent p" and r: "is_root p a" "is_root p b" "a \<noteq> b"
  shows "wf_parent (upd p b a)"
  unfolding wf_parent_def
proof (intro allI impI)
  fix u assume "in_range (upd p b a) u"
  then have "in_range p u" by (simp add: in_range_upd)
  then obtain x where "chain p u x" using w by (auto simp: wf_parent_def)
  from link_chain_fwd[OF this r] show "\<exists>r. chain (upd p b a) u r" by (rule exI)
qed

lemma link_roots:
  assumes r: "is_root p a" "is_root p b" "a \<noteq> b"
  shows "roots (upd p b a) = roots p - {b}"
proof -
  have "is_root (upd p b a) v \<longleftrightarrow> is_root p v \<and> v \<noteq> b" for v
    unfolding is_root_iff_chain link_chain_iff[OF r] using r(1,3) chain_root_eq[OF r(2)]
    by (auto simp: is_root_iff_chain)
  then show ?thesis by (auto simp: roots_def)
qed

lemma finite_roots: "finite (roots p)"
proof -
  have "roots p \<subseteq> {0..<int (length p)}" by (auto simp: roots_def is_root_def in_range_def)
  moreover have "finite {0..<int (length p)}" by simp
  ultimately show ?thesis by (rule finite_subset)
qed

lemma link_card_roots:
  "is_root p a \<Longrightarrow> is_root p b \<Longrightarrow> a \<noteq> b \<Longrightarrow> int (card (roots (upd p b a))) = int (card (roots p)) - 1"
proof -
  assume a: "is_root p a" "is_root p b" "a \<noteq> b"
  have "b \<in> roots p" using a by (simp add: roots_def)
  then have "card (roots p - {b}) = card (roots p) - 1" "card (roots p) > 0"
    using finite_roots by (auto simp: card_gt_0_iff)
  then show ?thesis using link_roots[OF a] by simp
qed

lemma same_sets_refl: "same_sets p p"
  by (simp add: same_sets_def)

lemma same_sets_trans: "same_sets p q \<Longrightarrow> same_sets q t \<Longrightarrow> same_sets p t"
  by (simp add: same_sets_def)

lemma same_sets_in_range: "same_sets p q \<Longrightarrow> in_range q i = in_range p i"
  by (simp add: same_sets_def in_range_def)

lemma same_sets_chain: "same_sets p q \<Longrightarrow> chain q v x = chain p v x"
  by (simp add: same_sets_def)

lemma same_sets_is_root: "same_sets p q \<Longrightarrow> is_root q r = is_root p r"
  by (simp add: is_root_iff_chain same_sets_def)

lemma same_sets_roots: "same_sets p q \<Longrightarrow> roots q = roots p"
  by (simp add: roots_def same_sets_is_root)

lemma same_sets_wf: "same_sets p q \<Longrightarrow> wf_parent p \<Longrightarrow> wf_parent q"
  by (simp add: wf_parent_def same_sets_in_range same_sets_chain)

lemma compressed_same_sets: "chain p u r \<Longrightarrow> compressed p u r p' \<Longrightarrow> same_sets p p'"
  by (simp add: same_sets_def compressed_chain_iff compressed_def)

lemma wf_parent_chain: "wf_parent p \<Longrightarrow> in_range p u \<Longrightarrow> \<exists>r. chain p u r"
  by (simp add: wf_parent_def)

lemma find_uf_twice:
  assumes cu: "chain (parent s) u ru" and cv: "chain (parent s) v rv"
  shows "\<exists>p1 p2. find_uf s u = Some (Inr (ru, s\<lparr>parent := p1\<rparr>)) \<and>
           find_uf (s\<lparr>parent := p1\<rparr>) v = Some (Inr (rv, s\<lparr>parent := p2\<rparr>)) \<and>
           compressed (parent s) u ru p1 \<and> compressed p1 v rv p2 \<and>
           same_sets (parent s) p1 \<and> same_sets (parent s) p2"
proof -
  from find_uf_chain[OF cu] obtain p1 where
    f1: "find_uf s u = Some (Inr (ru, s\<lparr>parent := p1\<rparr>))" and k1: "compressed (parent s) u ru p1"
    by blast
  have s1: "same_sets (parent s) p1" using cu k1 by (rule compressed_same_sets)
  have cv1: "chain (parent (s\<lparr>parent := p1\<rparr>)) v rv" using cv s1 by (simp add: same_sets_chain)
  from find_uf_chain[OF cv1] obtain p2 where
    f2: "find_uf (s\<lparr>parent := p1\<rparr>) v = Some (Inr (rv, s\<lparr>parent := p2\<rparr>))"
    and k2: "compressed p1 v rv p2"
    by auto
  have "chain p1 v rv" using cv1 by simp
  then have "same_sets p1 p2" using k2 by (rule compressed_same_sets)
  with s1 have s2: "same_sets (parent s) p2" by (rule same_sets_trans)
  show ?thesis using f1 f2 k1 k2 s1 s2 by blast
qed

lemma roots_nonempty: "is_root p r \<Longrightarrow> 1 \<le> int (card (roots p))"
proof -
  assume "is_root p r"
  then have "r \<in> roots p" by (simp add: roots_def)
  then have "card (roots p) > 0" using finite_roots by (auto simp: card_gt_0_iff)
  then show ?thesis by simp
qed

lemma uf_inv_rank_lt:
  assumes i: "uf_inv s" and r: "is_root (parent s) r"
  shows "in_range (rank s) r" and "at (rank s) r < INT_MAX" and "0 \<le> at (rank s) r"
proof -
  show ir: "in_range (rank s) r" using i r by (simp add: uf_inv_def is_root_def in_range_def)
  have "at (rank s) r + int (card (roots (parent s))) \<le> int (length (parent s))"
    and z: "0 \<le> at (rank s) r"
    using i ir by (simp_all add: uf_inv_def)
  moreover have "int (length (parent s)) \<le> INT_MAX" using i by (simp add: uf_inv_def)
  moreover note roots_nonempty[OF r]
  ultimately show "at (rank s) r < INT_MAX" by linarith
  show "0 \<le> at (rank s) r" by (rule z)
qed

lemma uf_inv_same_sets:
  "uf_inv s \<Longrightarrow> same_sets (parent s) p' \<Longrightarrow> uf_inv (s\<lparr>parent := p'\<rparr>)"
  by (simp add: uf_inv_def same_sets_wf same_sets_roots) (simp add: same_sets_def)

lemma uf_inv_link:
  assumes i: "uf_inv s" and r: "is_root (parent s) a" "is_root (parent s) b" "a \<noteq> b"
  shows "uf_inv (s\<lparr>parent := upd (parent s) b a\<rparr>)"
  using i link_wf[OF _ r] link_card_roots[OF r]
  by (simp add: uf_inv_def length_upd) force

lemma uf_inv_link_rank:
  assumes i: "uf_inv s" and r: "is_root (parent s) a" "is_root (parent s) b" "a \<noteq> b"
    and c: "in_range (rank s) c"
  shows "uf_inv (s\<lparr>parent := upd (parent s) b a, rank := upd (rank s) c (at (rank s) c + 1)\<rparr>)"
proof -
  have "0 \<le> at (upd (rank s) c (at (rank s) c + 1)) j \<and>
        at (upd (rank s) c (at (rank s) c + 1)) j + (int (card (roots (parent s))) - 1)
          \<le> int (length (parent s))" if j: "in_range (rank s) j" for j
  proof -
    have "0 \<le> at (rank s) j" "at (rank s) j + int (card (roots (parent s))) \<le> int (length (parent s))"
      using i j by (simp_all add: uf_inv_def)
    moreover have "0 \<le> at (rank s) c" "at (rank s) c + int (card (roots (parent s))) \<le> int (length (parent s))"
      using i c by (simp_all add: uf_inv_def)
    ultimately show ?thesis using at_upd[OF c j] by auto
  qed
  then show ?thesis
    using i link_wf[OF _ r] link_card_roots[OF r]
    by (simp add: uf_inv_def length_upd in_range_upd)
qed

lemma length_init_loop: "length (init_loop i n p) = length p"
proof (induction i n p rule: init_loop.induct)
  case (1 i n p)
  show ?case
  proof (cases "i < n")
    case True
    then have "length (init_loop i n p) = length (init_loop (i + 1) n (upd p i i))"
      by (subst init_loop.simps) simp
    also have "\<dots> = length (upd p i i)" using True by (rule "1.IH")
    finally show ?thesis by (simp add: length_upd)
  next
    case False
    then show ?thesis by (subst init_loop.simps) simp
  qed
qed

lemma at_init_loop:
  "0 \<le> i \<Longrightarrow> n \<le> int (length p) \<Longrightarrow> in_range p j \<Longrightarrow>
   at (init_loop i n p) j = (if i \<le> j \<and> j < n then j else at p j)"
proof (induction i n p rule: init_loop.induct)
  case (1 i n p)
  show ?case
  proof (cases "i < n")
    case True
    have ii: "in_range p i" using True "1.prems" by (simp add: in_range_def)
    have "at (init_loop i n p) j = at (init_loop (i + 1) n (upd p i i)) j"
      using True by (subst init_loop.simps) simp
    also have "\<dots> = (if i + 1 \<le> j \<and> j < n then j else at (upd p i i) j)"
    proof (rule "1.IH")
      show "i < n" by (rule True)
      show "0 \<le> i + 1" using "1.prems"(1) by simp
      show "n \<le> int (length (upd p i i))" using "1.prems"(2) by (simp add: length_upd)
      show "in_range (upd p i i) j" using "1.prems"(3) by (simp add: in_range_upd)
    qed
    also have "\<dots> = (if i \<le> j \<and> j < n then j else at p j)"
      using at_upd[OF ii "1.prems"(3)] True by auto
    finally show ?thesis .
  next
    case False
    then show ?thesis by (subst init_loop.simps) simp
  qed
qed

lemma init_parent:
  assumes "0 \<le> n"
  shows "length (init_loop 0 n (replicate (nat n) 0)) = nat n"
    and "identity_parent (init_loop 0 n (replicate (nat n) 0))"
proof -
  show l: "length (init_loop 0 n (replicate (nat n) 0)) = nat n" by (simp add: length_init_loop)
  show "identity_parent (init_loop 0 n (replicate (nat n) 0))"
    unfolding identity_parent_def
  proof (intro allI impI)
    fix j assume "in_range (init_loop 0 n (replicate (nat n) 0)) j"
    then have j: "in_range (replicate (nat n) 0) j" by (simp add: in_range_def length_init_loop)
    then have "0 \<le> j" "j < n" using assms by (simp_all add: in_range_def)
    then show "at (init_loop 0 n (replicate (nat n) 0)) j = j"
      using at_init_loop[of 0 n "replicate (nat n) 0" j] j assms by simp
  qed
qed

lemma identity_chain: "identity_parent p \<Longrightarrow> chain p u r \<longleftrightarrow> in_range p u \<and> r = u"
proof
  assume i: "identity_parent p" and c: "chain p u r"
  have "in_range p u" using c by (rule chain_in_range)
  then have "is_root p u" using i by (simp add: identity_parent_def is_root_def)
  then show "in_range p u \<and> r = u" using c chain_root_eq \<open>in_range p u\<close> by blast
next
  assume i: "identity_parent p" and "in_range p u \<and> r = u"
  then show "chain p u r" by (simp add: identity_parent_def chain.chain_root)
qed

lemma identity_roots: "identity_parent p \<Longrightarrow> roots p = {0..<int (length p)}"
  by (auto simp: roots_def is_root_def identity_parent_def in_range_def)

lemma identity_wf: "identity_parent p \<Longrightarrow> wf_parent p"
  by (simp add: wf_parent_def identity_chain)

lemma uf_inv_identity:
  "identity_parent (parent s) \<Longrightarrow> int (length (parent s)) \<le> INT_MAX \<Longrightarrow>
   rank s = replicate (length (parent s)) 0 \<Longrightarrow> uf_inv s"
  by (simp add: uf_inv_def identity_wf identity_roots in_range_def at_def nat_less_iff)

lemma uf_inv_init:
  assumes "UnionFind_init n = Inr s" and "n \<le> INT_MAX"
  shows "uf_inv s" and "length (parent s) = nat n" and "identity_parent (parent s)"
proof -
  have n: "0 \<le> n" and s: "s = \<lparr> parent = init_loop 0 n (replicate (nat n) 0), rank = replicate (nat n) 0 \<rparr>"
    using assms(1) by (auto simp: UnionFind_init_def split: if_splits)
  show l: "length (parent s) = nat n" using init_parent(1)[OF n] s by simp
  show ip: "identity_parent (parent s)" using init_parent(2)[OF n] s by simp
  show "uf_inv s"
  proof (rule uf_inv_identity[OF ip])
    show "int (length (parent s)) \<le> INT_MAX" using l n assms(2) by simp
    show "rank s = replicate (length (parent s)) 0" using l s by simp
  qed
qed

lemma doc_inv_init:
  assumes "UnionFind_doc_init n = Inr s" and "n \<le> INT_MAX"
  shows "doc_inv s" and "components s = n" and "length (parent s) = nat n"
    and "identity_parent (parent s)"
proof -
  have n: "0 \<le> n" and s: "s = \<lparr> parent = init_loop 0 n (replicate (nat n) 0), rank = replicate (nat n) 0, components = n \<rparr>"
    using assms(1) by (auto simp: UnionFind_doc_init_def split: if_splits)
  show l: "length (parent s) = nat n" using init_parent(1)[OF n] s by simp
  show ip: "identity_parent (parent s)" using init_parent(2)[OF n] s by simp
  show c: "components s = n" using s by simp
  have u: "uf_inv s"
  proof (rule uf_inv_identity[OF ip])
    show "int (length (parent s)) \<le> INT_MAX" using l n assms(2) by simp
    show "rank s = replicate (length (parent s)) 0" using l s by simp
  qed
  show "doc_inv s" using u c l n by (simp add: doc_inv_def identity_roots[OF ip])
qed

lemma linked_chain:
  assumes l: "linked p a b q" and r: "is_root p a" "is_root p b" "a \<noteq> b"
  shows "chain q v x \<longleftrightarrow> (chain p v x \<and> x \<noteq> b) \<or> (chain p v b \<and> x = a)"
proof -
  from l obtain p2 where s: "same_sets p p2" and q: "q = upd p2 b a" by (auto simp: linked_def)
  have r2: "is_root p2 a" "is_root p2 b" using r s by (simp_all add: same_sets_is_root)
  show ?thesis unfolding q link_chain_iff[OF r2 r(3)] by (simp add: same_sets_chain[OF s])
qed

lemma linked_length: "linked p a b q \<Longrightarrow> length q = length p"
  by (auto simp: linked_def same_sets_def length_upd)

lemma linked_in_range: "linked p a b q \<Longrightarrow> in_range q i = in_range p i"
  by (simp add: in_range_def linked_length)

lemma linked_at:
  assumes l: "linked p a b q" and r: "is_root p a" "is_root p b" "a \<noteq> b"
  shows "at q b = a" and "is_root q a"
proof -
  from l obtain p2 where s: "same_sets p p2" and q: "q = upd p2 b a" by (auto simp: linked_def)
  have "in_range p2 b" using r(2) s by (simp add: same_sets_in_range is_root_def)
  then show "at q b = a" by (simp add: q at_upd_same)
  have "chain p a a" using r(1) by (rule is_root_chain)
  then have "chain q a a" using linked_chain[OF l r] r(3) by simp
  then show "is_root q a" by (simp add: is_root_iff_chain)
qed

lemma linked_same_root:
  assumes l: "linked p a b q" and r: "is_root p a" "is_root p b" "a \<noteq> b"
  shows "same_root q v w \<longleftrightarrow>
         same_root p v w \<or> ((chain p v a \<or> chain p v b) \<and> (chain p w a \<or> chain p w b))"
proof -
  have u: "chain p v x \<Longrightarrow> chain p v y \<Longrightarrow> y = x" for v x y by (rule chain_unique)
  show ?thesis
    unfolding same_root_def linked_chain[OF l r]
    using r(3) by (metis u)
qed

lemma linked_wf:
  assumes l: "linked p a b q" and r: "is_root p a" "is_root p b" "a \<noteq> b" and w: "wf_parent p"
  shows "wf_parent q"
proof -
  from l obtain p2 where s: "same_sets p p2" and q: "q = upd p2 b a" by (auto simp: linked_def)
  have r2: "is_root p2 a" "is_root p2 b" using r s by (simp_all add: same_sets_is_root)
  have "wf_parent p2" using s w by (rule same_sets_wf)
  then show ?thesis unfolding q using r2 r(3) by (rule link_wf)
qed

lemma linked_card_roots:
  assumes l: "linked p a b q" and r: "is_root p a" "is_root p b" "a \<noteq> b"
  shows "int (card (roots q)) = int (card (roots p)) - 1"
proof -
  from l obtain p2 where s: "same_sets p p2" and q: "q = upd p2 b a" by (auto simp: linked_def)
  have r2: "is_root p2 a" "is_root p2 b" using r s by (simp_all add: same_sets_is_root)
  show ?thesis unfolding q link_card_roots[OF r2 r(3)] by (simp add: same_sets_roots[OF s])
qed

lemma same_sets_same_root: "same_sets p q \<Longrightarrow> same_root q v w = same_root p v w"
  by (simp add: same_root_def same_sets_def)

lemma uf_inv_linked:
  assumes i: "uf_inv s" and l: "linked (parent s) a b q"
    and r: "is_root (parent s) a" "is_root (parent s) b" "a \<noteq> b"
  shows "uf_inv (s\<lparr>parent := q\<rparr>)"
proof -
  from l obtain p2 where s: "same_sets (parent s) p2" and q: "q = upd p2 b a"
    by (auto simp: linked_def)
  have r2: "is_root p2 a" "is_root p2 b" using r s by (simp_all add: same_sets_is_root)
  have "uf_inv (s\<lparr>parent := p2\<rparr>)" using i s by (rule uf_inv_same_sets)
  from uf_inv_link[OF this, of a b] r2 r(3) show ?thesis by (simp add: q)
qed

lemma uf_inv_linked_rank:
  assumes i: "uf_inv s" and l: "linked (parent s) a b q"
    and r: "is_root (parent s) a" "is_root (parent s) b" "a \<noteq> b"
    and c: "in_range (rank s) c"
  shows "uf_inv (s\<lparr>parent := q, rank := upd (rank s) c (at (rank s) c + 1)\<rparr>)"
proof -
  from l obtain p2 where s: "same_sets (parent s) p2" and q: "q = upd p2 b a"
    by (auto simp: linked_def)
  have r2: "is_root p2 a" "is_root p2 b" using r s by (simp_all add: same_sets_is_root)
  have "uf_inv (s\<lparr>parent := p2\<rparr>)" using i s by (rule uf_inv_same_sets)
  from uf_inv_link_rank[OF this, of a b c] r2 r(3) c show ?thesis by (simp add: q)
qed

text \<open>The results of the operations on a state in which the chains exist.\<close>

lemma connected_result:
  assumes cu: "chain (parent s) u ru" and cv: "chain (parent s) v rv"
  shows "\<exists>p2. same_sets (parent s) p2 \<and> connected s u v = Some (Inr (ru = rv, s\<lparr>parent := p2\<rparr>))"
proof -
  from find_uf_twice[OF cu cv] obtain p1 p2 where
    f1: "find_uf s u = Some (Inr (ru, s\<lparr>parent := p1\<rparr>))" and
    f2: "find_uf (s\<lparr>parent := p1\<rparr>) v = Some (Inr (rv, s\<lparr>parent := p2\<rparr>))" and
    s2: "same_sets (parent s) p2" by blast
  have "connected s u v = Some (Inr (ru = rv, s\<lparr>parent := p2\<rparr>))"
    by (simp add: connected_def f1 f2)
  with s2 show ?thesis by blast
qed

lemma unionSets_result:
  assumes i: "uf_inv s" and cu: "chain (parent s) u ru" and cv: "chain (parent s) v rv"
  shows "\<exists>p2. same_sets (parent s) p2 \<and>
           unionSets s u v = Some (Inr
             (if ru = rv then s\<lparr>parent := p2\<rparr>
              else if at (rank s) ru < at (rank s) rv then s\<lparr>parent := upd p2 ru rv\<rparr>
              else if at (rank s) rv < at (rank s) ru then s\<lparr>parent := upd p2 rv ru\<rparr>
              else s\<lparr>parent := upd p2 rv ru, rank := upd (rank s) ru (at (rank s) ru + 1)\<rparr>))"
proof -
  from find_uf_twice[OF cu cv] obtain p1 p2 where
    f1: "find_uf s u = Some (Inr (ru, s\<lparr>parent := p1\<rparr>))" and
    f2: "find_uf (s\<lparr>parent := p1\<rparr>) v = Some (Inr (rv, s\<lparr>parent := p2\<rparr>))" and
    s2: "same_sets (parent s) p2" by blast
  have ru: "is_root (parent s) ru" and rv: "is_root (parent s) rv"
    using cu cv by (auto intro: chain_is_root)
  note a = uf_inv_rank_lt[OF i ru] and b = uf_inv_rank_lt[OF i rv]
  have "unionSets s u v = Some (Inr
             (if ru = rv then s\<lparr>parent := p2\<rparr>
              else if at (rank s) ru < at (rank s) rv then s\<lparr>parent := upd p2 ru rv\<rparr>
              else if at (rank s) rv < at (rank s) ru then s\<lparr>parent := upd p2 rv ru\<rparr>
              else s\<lparr>parent := upd p2 rv ru, rank := upd (rank s) ru (at (rank s) ru + 1)\<rparr>))"
    using a(1,2) b(1) by (simp add: unionSets_def f1 f2 Let_def)
  with s2 show ?thesis by blast
qed

lemma unionSets3_false_result:
  assumes cu: "chain (parent s) u ru" and cv: "chain (parent s) v rv"
  shows "\<exists>p2. same_sets (parent s) p2 \<and>
           unionSets3 s u v False = Some (Inr
             (if ru = rv then s\<lparr>parent := p2\<rparr> else s\<lparr>parent := upd p2 rv ru\<rparr>))"
proof -
  from find_uf_twice[OF cu cv] obtain p1 p2 where
    f1: "find_uf s u = Some (Inr (ru, s\<lparr>parent := p1\<rparr>))" and
    f2: "find_uf (s\<lparr>parent := p1\<rparr>) v = Some (Inr (rv, s\<lparr>parent := p2\<rparr>))" and
    s2: "same_sets (parent s) p2" by blast
  have "unionSets3 s u v False = Some (Inr
             (if ru = rv then s\<lparr>parent := p2\<rparr> else s\<lparr>parent := upd p2 rv ru\<rparr>))"
    by (simp add: unionSets3_def f1 f2)
  with s2 show ?thesis by blast
qed

lemma unionBySize_result:
  assumes cu: "chain (parent s) u ru" and cv: "chain (parent s) v rv"
  shows "\<exists>p2. same_sets (parent s) p2 \<and>
           unionBySize s u v sz =
             (if ru = rv then Some (Inr (s\<lparr>parent := p2\<rparr>, sz))
              else if \<not> (in_range sz ru \<and> in_range sz rv)
                then Some (Inl (OutOfBounds, (s\<lparr>parent := p2\<rparr>, sz)))
              else if at sz ru < at sz rv then
                (if \<not> int_ok (at sz rv + at sz ru)
                 then Some (Inl (SignedOverflow, (s\<lparr>parent := upd p2 ru rv\<rparr>, sz)))
                 else Some (Inr (s\<lparr>parent := upd p2 ru rv\<rparr>, upd sz rv (at sz rv + at sz ru))))
              else
                (if \<not> int_ok (at sz ru + at sz rv)
                 then Some (Inl (SignedOverflow, (s\<lparr>parent := upd p2 rv ru\<rparr>, sz)))
                 else Some (Inr (s\<lparr>parent := upd p2 rv ru\<rparr>, upd sz ru (at sz ru + at sz rv)))))"
proof -
  from find_uf_twice[OF cu cv] obtain p1 p2 where
    f1: "find_uf s u = Some (Inr (ru, s\<lparr>parent := p1\<rparr>))" and
    f2: "find_uf (s\<lparr>parent := p1\<rparr>) v = Some (Inr (rv, s\<lparr>parent := p2\<rparr>))" and
    s2: "same_sets (parent s) p2" by blast
  have "unionBySize s u v sz =
             (if ru = rv then Some (Inr (s\<lparr>parent := p2\<rparr>, sz))
              else if \<not> (in_range sz ru \<and> in_range sz rv)
                then Some (Inl (OutOfBounds, (s\<lparr>parent := p2\<rparr>, sz)))
              else if at sz ru < at sz rv then
                (if \<not> int_ok (at sz rv + at sz ru)
                 then Some (Inl (SignedOverflow, (s\<lparr>parent := upd p2 ru rv\<rparr>, sz)))
                 else Some (Inr (s\<lparr>parent := upd p2 ru rv\<rparr>, upd sz rv (at sz rv + at sz ru))))
              else
                (if \<not> int_ok (at sz ru + at sz rv)
                 then Some (Inl (SignedOverflow, (s\<lparr>parent := upd p2 rv ru\<rparr>, sz)))
                 else Some (Inr (s\<lparr>parent := upd p2 rv ru\<rparr>, upd sz ru (at sz ru + at sz rv)))))"
    by (simp add: unionBySize_def f1 f2 Let_def)
  with s2 show ?thesis by blast
qed

lemma unite_result:
  assumes i: "doc_inv s" and cu: "chain (parent s) u ru" and cv: "chain (parent s) v rv"
  shows "\<exists>p2. same_sets (parent s) p2 \<and>
           unite s u v = Some (Inr
             (if ru = rv then (False, s\<lparr>parent := p2\<rparr>)
              else if at (rank s) ru < at (rank s) rv
                then (True, s\<lparr>parent := upd p2 ru rv, components := components s - 1\<rparr>)
              else if at (rank s) rv < at (rank s) ru
                then (True, s\<lparr>parent := upd p2 rv ru, components := components s - 1\<rparr>)
              else (True, s\<lparr>parent := upd p2 rv ru, rank := upd (rank s) ru (at (rank s) ru + 1),
                            components := components s - 1\<rparr>)))"
proof -
  from find_uf_twice[OF cu cv] obtain p1 p2 where
    f1: "find_uf s u = Some (Inr (ru, s\<lparr>parent := p1\<rparr>))" and
    f2: "find_uf (s\<lparr>parent := p1\<rparr>) v = Some (Inr (rv, s\<lparr>parent := p2\<rparr>))" and
    s2: "same_sets (parent s) p2" by blast
  have ui: "uf_inv s" and ci: "components s = int (card (roots (parent s)))"
    using i by (simp_all add: doc_inv_def)
  have ru: "is_root (parent s) ru" and rv: "is_root (parent s) rv"
    using cu cv by (auto intro: chain_is_root)
  note a = uf_inv_rank_lt[OF ui ru] and b = uf_inv_rank_lt[OF ui rv]
  have "components s \<noteq> INT_MIN" using ci by (simp add: INT_MIN_def)
  then have "unite s u v = Some (Inr
             (if ru = rv then (False, s\<lparr>parent := p2\<rparr>)
              else if at (rank s) ru < at (rank s) rv
                then (True, s\<lparr>parent := upd p2 ru rv, components := components s - 1\<rparr>)
              else if at (rank s) rv < at (rank s) ru
                then (True, s\<lparr>parent := upd p2 rv ru, components := components s - 1\<rparr>)
              else (True, s\<lparr>parent := upd p2 rv ru, rank := upd (rank s) ru (at (rank s) ru + 1),
                            components := components s - 1\<rparr>)))"
    using a(1,2) b(1) by (simp add: unite_def f1 f2 Let_def)
  with s2 show ?thesis by blast
qed

lemma find_uf_oob: "\<not> in_range (parent s) u \<Longrightarrow> find_uf s u = Some (Inl (OutOfBounds, s))"
  by (subst find_uf.simps) simp

lemma ops_oob_first:
  assumes "\<not> in_range (parent s) u"
  shows "unionSets s u v = Some (Inl (OutOfBounds, s))"
    and "unionSets3 s u v b = Some (Inl (OutOfBounds, s))"
    and "unionBySize s u v sz = Some (Inl (OutOfBounds, (s, sz)))"
    and "connected s u v = Some (Inl (OutOfBounds, s))"
  using find_uf_oob[OF assms]
  by (simp_all add: unionSets_def unionSets3_def unionBySize_def connected_def)

lemma ops_oob_second:
  assumes cu: "chain (parent s) u ru" and v: "\<not> in_range (parent s) v"
  shows "\<exists>p1. compressed (parent s) u ru p1 \<and>
           unionSets s u v = Some (Inl (OutOfBounds, s\<lparr>parent := p1\<rparr>)) \<and>
           unionSets3 s u v b = Some (Inl (OutOfBounds, s\<lparr>parent := p1\<rparr>)) \<and>
           unionBySize s u v sz = Some (Inl (OutOfBounds, (s\<lparr>parent := p1\<rparr>, sz))) \<and>
           connected s u v = Some (Inl (OutOfBounds, s\<lparr>parent := p1\<rparr>))"
proof -
  from find_uf_chain[OF cu] obtain p1 where
    f1: "find_uf s u = Some (Inr (ru, s\<lparr>parent := p1\<rparr>))" and k1: "compressed (parent s) u ru p1"
    by blast
  have "\<not> in_range (parent (s\<lparr>parent := p1\<rparr>)) v" using v k1 by (simp add: compressed_in_range)
  from find_uf_oob[OF this] have f2: "find_uf (s\<lparr>parent := p1\<rparr>) v = Some (Inl (OutOfBounds, s\<lparr>parent := p1\<rparr>))" .
  have "unionSets s u v = Some (Inl (OutOfBounds, s\<lparr>parent := p1\<rparr>))"
    by (simp add: unionSets_def f1 f2)
  moreover from this have "unionSets3 s u v b = Some (Inl (OutOfBounds, s\<lparr>parent := p1\<rparr>))"
    by (simp add: unionSets3_def f1 f2)
  moreover have "unionBySize s u v sz = Some (Inl (OutOfBounds, (s\<lparr>parent := p1\<rparr>, sz)))"
    by (simp add: unionBySize_def f1 f2)
  moreover have "connected s u v = Some (Inl (OutOfBounds, s\<lparr>parent := p1\<rparr>))"
    by (simp add: connected_def f1 f2)
  ultimately show ?thesis using k1 by blast
qed

lemma find_effect:
  assumes i: "uf_inv s" and d: "find_uf s u = Some (Inr (r, s'))"
  shows "uf_inv s' \<and> same_sets (parent s) (parent s') \<and> chain (parent s) u r \<and> rank s' = rank s"
proof -
  have iu: "in_range (parent s) u" using d find_uf_oob[of s u] by auto
  have "wf_parent (parent s)" using i by (simp add: uf_inv_def)
  then obtain r0 where c: "chain (parent s) u r0" using iu wf_parent_chain by blast
  from find_uf_chain[OF c] obtain p1 where
    f1: "find_uf s u = Some (Inr (r0, s\<lparr>parent := p1\<rparr>))" and k1: "compressed (parent s) u r0 p1"
    by blast
  have e: "r = r0" "s' = s\<lparr>parent := p1\<rparr>" using d f1 by simp_all
  have ss: "same_sets (parent s) p1" using c k1 by (rule compressed_same_sets)
  have "uf_inv (s\<lparr>parent := p1\<rparr>)" using i ss by (rule uf_inv_same_sets)
  then show ?thesis using e ss c by simp
qed

lemma in_range_of_success:
  assumes i: "uf_inv s"
    and d: "unionSets s u v = Some (Inr s1) \<or> unionSets3 s u v b = Some (Inr s1) \<or>
            unionBySize s u v sz = Some (Inr (s1, sz1)) \<or> connected s u v = Some (Inr (c, s1))"
  shows "\<exists>ru rv. chain (parent s) u ru \<and> chain (parent s) v rv"
proof -
  have w: "wf_parent (parent s)" using i by (simp add: uf_inv_def)
  have iu: "in_range (parent s) u"
  proof (rule ccontr)
    assume "\<not> in_range (parent s) u"
    from ops_oob_first[OF this] d show False by simp
  qed
  then obtain ru where cu: "chain (parent s) u ru" using w wf_parent_chain by blast
  have iv: "in_range (parent s) v"
  proof (rule ccontr)
    assume "\<not> in_range (parent s) v"
    from ops_oob_second[OF cu this, of b sz] d show False by auto
  qed
  then obtain rv where "chain (parent s) v rv" using w wf_parent_chain by blast
  with cu show ?thesis by blast
qed

lemma linkedI: "same_sets p p2 \<Longrightarrow> linked p a b (upd p2 b a)"
  by (auto simp: linked_def)

lemma unionSets_effect:
  assumes i: "uf_inv s" and d: "unionSets s u v = Some (Inr s')"
  shows "uf_inv s' \<and> call_effect (parent s) (UnionSets u v) (parent s')"
proof -
  from in_range_of_success[OF i, of u v s'] d obtain ru rv where
    cu: "chain (parent s) u ru" and cv: "chain (parent s) v rv" by blast
  have ru: "is_root (parent s) ru" and rv: "is_root (parent s) rv"
    using cu cv by (auto intro: chain_is_root)
  from unionSets_result[OF i cu cv] d obtain p2 where ss: "same_sets (parent s) p2" and
    e: "s' = (if ru = rv then s\<lparr>parent := p2\<rparr>
              else if at (rank s) ru < at (rank s) rv then s\<lparr>parent := upd p2 ru rv\<rparr>
              else if at (rank s) rv < at (rank s) ru then s\<lparr>parent := upd p2 rv ru\<rparr>
              else s\<lparr>parent := upd p2 rv ru, rank := upd (rank s) ru (at (rank s) ru + 1)\<rparr>)"
    by auto
  show ?thesis
  proof (cases "ru = rv")
    case True
    then have "s' = s\<lparr>parent := p2\<rparr>" using e by simp
    then show ?thesis using uf_inv_same_sets[OF i ss] ss by (simp add: call_effect_def)
  next
    case False
    have l1: "linked (parent s) rv ru (upd p2 ru rv)" and l2: "linked (parent s) ru rv (upd p2 rv ru)"
      using ss by (simp_all add: linkedI)
    have u1: "uf_inv (s\<lparr>parent := upd p2 ru rv\<rparr>)"
      using i l1 rv ru False by (intro uf_inv_linked[where a=rv and b=ru]) auto
    have u2: "uf_inv (s\<lparr>parent := upd p2 rv ru\<rparr>)"
      using i l2 ru rv False by (intro uf_inv_linked[where a=ru and b=rv]) auto
    have u3: "uf_inv (s\<lparr>parent := upd p2 rv ru, rank := upd (rank s) ru (at (rank s) ru + 1)\<rparr>)"
      using i l2 ru rv False uf_inv_rank_lt(1)[OF i ru]
      by (intro uf_inv_linked_rank[where a=ru and b=rv]) auto
    have ce: "call_effect (parent s) (UnionSets u v) q" if "linked (parent s) ru rv q \<or> linked (parent s) rv ru q" for q
      unfolding call_effect_def using cu cv False that by auto
    show ?thesis using e False u1 u2 u3 ce l1 l2 by auto
  qed
qed

lemma call_effect_union_args:
  "union_args c = union_args c' \<Longrightarrow> call_effect p c q = call_effect p c' q"
  by (simp add: call_effect_def)

lemma unionSets3_effect:
  assumes i: "uf_inv s" and d: "unionSets3 s u v b = Some (Inr s')"
  shows "uf_inv s' \<and> call_effect (parent s) (UnionSets3 u v b) (parent s')"
proof (cases b)
  case True
  then have "unionSets s u v = Some (Inr s')" using d by (simp add: unionSets3_def)
  from unionSets_effect[OF i this] show ?thesis
    by (simp add: call_effect_union_args[of "UnionSets3 u v b" "UnionSets u v"])
next
  case False
  from in_range_of_success[OF i, of u v s' b] d obtain ru rv where
    cu: "chain (parent s) u ru" and cv: "chain (parent s) v rv" by blast
  have ru: "is_root (parent s) ru" and rv: "is_root (parent s) rv"
    using cu cv by (auto intro: chain_is_root)
  from unionSets3_false_result[OF cu cv] d False obtain p2 where ss: "same_sets (parent s) p2" and
    e: "s' = (if ru = rv then s\<lparr>parent := p2\<rparr> else s\<lparr>parent := upd p2 rv ru\<rparr>)"
    by auto
  show ?thesis
  proof (cases "ru = rv")
    case True
    then have "s' = s\<lparr>parent := p2\<rparr>" using e by simp
    then show ?thesis using uf_inv_same_sets[OF i ss] ss by (simp add: call_effect_def)
  next
    case False
    have l2: "linked (parent s) ru rv (upd p2 rv ru)" using ss by (simp add: linkedI)
    have u2: "uf_inv (s\<lparr>parent := upd p2 rv ru\<rparr>)"
      using i l2 ru rv False by (intro uf_inv_linked[where a=ru and b=rv]) auto
    have "call_effect (parent s) (UnionSets3 u v b) (upd p2 rv ru)"
      unfolding call_effect_def using cu cv False l2 by auto
    then show ?thesis using e False u2 by simp
  qed
qed

lemma unionBySize_effect:
  assumes i: "uf_inv s" and d: "unionBySize s u v sz = Some (Inr (s', sz'))"
  shows "uf_inv s' \<and> call_effect (parent s) (UnionBySize u v sz) (parent s')"
proof -
  from in_range_of_success[OF i, of u v s' _ sz sz'] d obtain ru rv where
    cu: "chain (parent s) u ru" and cv: "chain (parent s) v rv" by blast
  have ru: "is_root (parent s) ru" and rv: "is_root (parent s) rv"
    using cu cv by (auto intro: chain_is_root)
  from unionBySize_result[OF cu cv, of sz] obtain p2 where ss: "same_sets (parent s) p2" and
    e: "unionBySize s u v sz =
             (if ru = rv then Some (Inr (s\<lparr>parent := p2\<rparr>, sz))
              else if \<not> (in_range sz ru \<and> in_range sz rv)
                then Some (Inl (OutOfBounds, (s\<lparr>parent := p2\<rparr>, sz)))
              else if at sz ru < at sz rv then
                (if \<not> int_ok (at sz rv + at sz ru)
                 then Some (Inl (SignedOverflow, (s\<lparr>parent := upd p2 ru rv\<rparr>, sz)))
                 else Some (Inr (s\<lparr>parent := upd p2 ru rv\<rparr>, upd sz rv (at sz rv + at sz ru))))
              else
                (if \<not> int_ok (at sz ru + at sz rv)
                 then Some (Inl (SignedOverflow, (s\<lparr>parent := upd p2 rv ru\<rparr>, sz)))
                 else Some (Inr (s\<lparr>parent := upd p2 rv ru\<rparr>, upd sz ru (at sz ru + at sz rv)))))"
    by blast
  show ?thesis
  proof (cases "ru = rv")
    case True
    then have "s' = s\<lparr>parent := p2\<rparr>" using e d by simp
    then show ?thesis using uf_inv_same_sets[OF i ss] ss by (simp add: call_effect_def)
  next
    case False
    have l1: "linked (parent s) rv ru (upd p2 ru rv)" and l2: "linked (parent s) ru rv (upd p2 rv ru)"
      using ss by (simp_all add: linkedI)
    have u1: "uf_inv (s\<lparr>parent := upd p2 ru rv\<rparr>)"
      using i l1 rv ru False by (intro uf_inv_linked[where a=rv and b=ru]) auto
    have u2: "uf_inv (s\<lparr>parent := upd p2 rv ru\<rparr>)"
      using i l2 ru rv False by (intro uf_inv_linked[where a=ru and b=rv]) auto
    have ce: "call_effect (parent s) (UnionBySize u v sz) q"
      if "linked (parent s) ru rv q \<or> linked (parent s) rv ru q" for q
      unfolding call_effect_def using cu cv False that by auto
    have "s' = s\<lparr>parent := upd p2 ru rv\<rparr> \<or> s' = s\<lparr>parent := upd p2 rv ru\<rparr>"
      using e d False by (auto split: if_splits)
    then show ?thesis using u1 u2 ce l1 l2 by auto
  qed
qed

lemma connected_effect:
  assumes i: "uf_inv s" and d: "connected s u v = Some (Inr (c, s'))"
  shows "uf_inv s' \<and> same_sets (parent s) (parent s') \<and> rank s' = rank s \<and>
         c = same_root (parent s) u v"
proof -
  from in_range_of_success[OF i, of u v s' _ _ _ c] d obtain ru rv where
    cu: "chain (parent s) u ru" and cv: "chain (parent s) v rv" by blast
  from connected_result[OF cu cv] d obtain p2 where ss: "same_sets (parent s) p2" and
    e: "s' = s\<lparr>parent := p2\<rparr>" "c = (ru = rv)" by auto
  have "same_root (parent s) u v \<longleftrightarrow> ru = rv"
    unfolding same_root_def using cu cv chain_unique by blast
  then show ?thesis using e uf_inv_same_sets[OF i ss] ss by simp
qed

lemma do_call_effect:
  assumes i: "uf_inv s" and d: "do_call s c = Some (Inr s')"
  shows "uf_inv s' \<and> call_effect (parent s) c (parent s')"
proof (cases c)
  case (Find u)
  then obtain r where "find_uf s u = Some (Inr (r, s'))"
    using d by (auto simp: do_call_def split: option.splits sum.splits)
  from find_effect[OF i this] show ?thesis by (simp add: call_effect_def)
next
  case (UnionSets u v)
  then have "unionSets s u v = Some (Inr s')" using d by (simp add: do_call_def)
  from unionSets_effect[OF i this] show ?thesis using UnionSets by simp
next
  case (UnionSets3 u v b)
  then have "unionSets3 s u v b = Some (Inr s')" using d by (simp add: do_call_def)
  from unionSets3_effect[OF i this] show ?thesis using UnionSets3 by simp
next
  case (UnionBySize u v sz)
  then obtain sz' where "unionBySize s u v sz = Some (Inr (s', sz'))"
    using d by (auto simp: do_call_def split: option.splits sum.splits)
  from unionBySize_effect[OF i this] show ?thesis using UnionBySize by simp
next
  case (Connected u v)
  then obtain b where "connected s u v = Some (Inr (b, s'))"
    using d by (auto simp: do_call_def split: option.splits sum.splits)
  from connected_effect[OF i this] show ?thesis by (simp add: call_effect_def)
qed

lemma uf_inv_run: "uf_inv s \<Longrightarrow> run s cs = Some (Inr s') \<Longrightarrow> uf_inv s'"
proof (induction cs arbitrary: s)
  case Nil
  then show ?case by simp
next
  case (Cons c cs)
  from Cons.prems(2) obtain s1 where d: "do_call s c = Some (Inr s1)" and r: "run s1 cs = Some (Inr s')"
    by (auto split: option.splits sum.splits)
  have "uf_inv s1" using do_call_effect[OF Cons.prems(1) d] by simp
  then show ?case using r by (rule Cons.IH)
qed

section \<open>A worked example\<close>

lemmas ev = find_uf.simps in_range_def at_def upd_def unionSets_def unionSets3_def unionBySize_def
  connected_def unite_def do_call_def Let_def INT_MAX_def INT_MIN_def int_ok_def
  UnionFind_init_def UnionFind_doc_init_def init_loop.simps hasCycle_def countComponents_def
  getComponents_def eval_nat_numeral

lemma example_init: "UnionFind_init 4 = Inr \<lparr>parent = [0, 1, 2, 3], rank = [0, 0, 0, 0]\<rparr>"
  by (simp add: ev)

lemma example_run:
  "run \<lparr>parent = [0, 1, 2, 3], rank = [0, 0, 0, 0]\<rparr> [UnionSets 0 1, UnionSets 2 3, UnionSets 0 2]
     = Some (Inr \<lparr>parent = [0, 0, 0, 2], rank = [2, 0, 1, 0]\<rparr>)"
  by (simp add: ev)

lemma example_inv: "uf_inv \<lparr>parent = [0, 0, 0, 2], rank = [2, 0, 1, 0]\<rparr>"
proof -
  have "uf_inv \<lparr>parent = [0, 1, 2, 3], rank = [0, 0, 0, 0]\<rparr>"
    using example_init by (rule uf_inv_init(1)) (simp add: INT_MAX_def)
  then show ?thesis using example_run by (rule uf_inv_run)
qed

lemma chain_via: "in_range p u \<Longrightarrow> at p u = w \<Longrightarrow> w \<noteq> u \<Longrightarrow> chain p w r \<Longrightarrow> chain p u r"
  using chain_step[of p u r] by simp

lemma example_chains:
  "chain [0, 0, 0, 2] 0 0" "chain [0, 0, 0, 2] 1 0" "chain [0, 0, 0, 2] 2 0" "chain [0, 0, 0, 2] 3 0"
proof -
  show c0: "chain [0, 0, 0, 2] 0 0" by (rule chain_root) (simp_all add: in_range_def at_def)
  show "chain [0, 0, 0, 2] 1 0" by (rule chain_via[where w=0]) (simp_all add: in_range_def at_def c0)
  show c2: "chain [0, 0, 0, 2] 2 0" by (rule chain_via[where w=0]) (simp_all add: in_range_def at_def c0)
  show "chain [0, 0, 0, 2] 3 0" by (rule chain_via[where w=2]) (simp_all add: in_range_def at_def c2)
qed

lemma chain_visited: "chain p u r \<Longrightarrow> visited p u r"
  by (induction rule: chain.induct) (auto intro: visited.intros)

lemma visited_root_unique:
  assumes c: "chain p u r" and v: "visited p u r'" and a: "at p r' = r'"
  shows "r' = r"
proof -
  have cr: "chain p r' r" using v c by (rule visited_chain)
  then have "in_range p r'" by (rule chain_in_range)
  then have "is_root p r'" using a by (simp add: is_root_def)
  then show ?thesis using cr chain_root_eq by blast
qed

text \<open>
  C3. On a well-formed parent array, \<open>find\<close> of an element \<open>x\<close> in range returns the
  root of \<open>x\<close>'s set: the one element on the parent chain of \<open>x\<close> that is its own
  parent. The only change to the object is in the parent array, where exactly the
  elements visited on the way to the root now point at the root; the rank array and
  the length of the parent array are untouched.
\<close>

theorem find_returns_root_and_compresses:
  assumes "wf_parent (parent s)" and "in_range (parent s) x"
  shows "\<exists>r p'. find_uf s x = Some (Inr (r, s\<lparr>parent := p'\<rparr>)) \<and>
           visited (parent s) x r \<and> is_root (parent s) r \<and>
           (\<forall>r'. visited (parent s) x r' \<and> at (parent s) r' = r' \<longrightarrow> r' = r) \<and>
           length p' = length (parent s) \<and>
           (\<forall>w. in_range (parent s) w \<longrightarrow>
                at p' w = (if visited (parent s) x w then r else at (parent s) w))"
proof -
  from assms obtain r where c: "chain (parent s) x r" using wf_parent_chain by blast
  from find_uf_chain[OF c] obtain p' where
    f: "find_uf s x = Some (Inr (r, s\<lparr>parent := p'\<rparr>))" and k: "compressed (parent s) x r p'"
    by blast
  have "visited (parent s) x r" using c by (rule chain_visited)
  moreover have "is_root (parent s) r" using c by (rule chain_is_root)
  moreover have "\<forall>r'. visited (parent s) x r' \<and> at (parent s) r' = r' \<longrightarrow> r' = r"
    using visited_root_unique[OF c] by blast
  ultimately show ?thesis using f k unfolding compressed_def by blast
qed

theorem find_returns_root_and_compresses_witness:
  "wf_parent (parent \<lparr>parent = [0, 0, 0, 2], rank = [2, 0, 1, 0]\<rparr>) \<and>
   in_range (parent \<lparr>parent = [0, 0, 0, 2], rank = [2, 0, 1, 0]\<rparr>) 3 \<and>
   find_uf \<lparr>parent = [0, 0, 0, 2], rank = [2, 0, 1, 0]\<rparr> 3
     = Some (Inr (0, \<lparr>parent = [0, 0, 0, 0], rank = [2, 0, 1, 0]\<rparr>)) \<and>
   (\<exists>r p'. find_uf \<lparr>parent = [0, 0, 0, 2], rank = [2, 0, 1, 0]\<rparr> 3
              = Some (Inr (r, \<lparr>parent = [0, 0, 0, 2], rank = [2, 0, 1, 0]\<rparr>\<lparr>parent := p'\<rparr>)) \<and>
      visited [0, 0, 0, 2] 3 r \<and> is_root [0, 0, 0, 2] r)"
proof -
  have w: "wf_parent (parent \<lparr>parent = [0, 0, 0, 2], rank = [2, 0, 1, 0]\<rparr>)"
    using example_inv by (simp add: uf_inv_def)
  have i: "in_range (parent \<lparr>parent = [0, 0, 0, 2], rank = [2, 0, 1, 0]\<rparr>) 3"
    by (simp add: in_range_def)
  have e: "find_uf \<lparr>parent = [0, 0, 0, 2], rank = [2, 0, 1, 0]\<rparr> 3
     = Some (Inr (0, \<lparr>parent = [0, 0, 0, 0], rank = [2, 0, 1, 0]\<rparr>))"
    by (simp add: ev)
  from find_returns_root_and_compresses[OF w i] w i e show ?thesis by auto
qed

lemma uf_inv_components: "uf_inv (t\<lparr>components := k\<rparr>) = uf_inv t"
  by (simp add: uf_inv_def)

lemma unite_effect:
  assumes i: "doc_inv s" and cu: "chain (parent s) x rx" and cv: "chain (parent s) y ry"
  shows "\<exists>m s'. unite s x y = Some (Inr (m, s')) \<and> m = (rx \<noteq> ry) \<and> doc_inv s' \<and>
           components s' = (if m then components s - 1 else components s) \<and>
           (\<not> m \<longrightarrow> same_sets (parent s) (parent s') \<and> rank s' = rank s) \<and>
           (m \<longrightarrow> linked (parent s) rx ry (parent s') \<or> linked (parent s) ry rx (parent s')) \<and>
           unionSets s x y = Some (Inr (s'\<lparr>components := components s\<rparr>))"
proof -
  have ui: "uf_inv s" and ci: "components s = int (card (roots (parent s)))"
    using i by (simp_all add: doc_inv_def)
  have ru: "is_root (parent s) rx" and rv: "is_root (parent s) ry"
    using cu cv by (auto intro: chain_is_root)
  note a = uf_inv_rank_lt[OF ui ru] and b = uf_inv_rank_lt[OF ui rv]
  from find_uf_twice[OF cu cv] obtain p1 p2 where
    f1: "find_uf s x = Some (Inr (rx, s\<lparr>parent := p1\<rparr>))" and
    f2: "find_uf (s\<lparr>parent := p1\<rparr>) y = Some (Inr (ry, s\<lparr>parent := p2\<rparr>))" and
    ss: "same_sets (parent s) p2" by blast
  have nm: "components s \<noteq> INT_MIN" using ci by (simp add: INT_MIN_def)
  show ?thesis
  proof (cases "rx = ry")
    case True
    have "unite s x y = Some (Inr (False, s\<lparr>parent := p2\<rparr>))"
      using True by (simp add: unite_def f1 f2)
    moreover have "unionSets s x y = Some (Inr (s\<lparr>parent := p2\<rparr>))"
      using True by (simp add: unionSets_def f1 f2)
    moreover have "doc_inv (s\<lparr>parent := p2\<rparr>)"
      using uf_inv_same_sets[OF ui ss] ci by (simp add: doc_inv_def same_sets_roots[OF ss])
    ultimately show ?thesis using True ss
      by - (rule exI[of _ False], rule exI[of _ "s\<lparr>parent := p2\<rparr>"], simp)
  next
    case False
    have l1: "linked (parent s) ry rx (upd p2 rx ry)" and l2: "linked (parent s) rx ry (upd p2 ry rx)"
      using ss by (simp_all add: linkedI)
    have c1: "int (card (roots (upd p2 rx ry))) = components s - 1"
      using linked_card_roots[OF l1 rv ru] False ci by simp
    have c2: "int (card (roots (upd p2 ry rx))) = components s - 1"
      using linked_card_roots[OF l2 ru rv] False ci by simp
    have u1: "uf_inv (s\<lparr>parent := upd p2 rx ry\<rparr>)"
      using ui l1 rv ru False by (intro uf_inv_linked[where a=ry and b=rx]) auto
    have u2: "uf_inv (s\<lparr>parent := upd p2 ry rx\<rparr>)"
      using ui l2 ru rv False by (intro uf_inv_linked[where a=rx and b=ry]) auto
    have u3: "uf_inv (s\<lparr>parent := upd p2 ry rx, rank := upd (rank s) rx (at (rank s) rx + 1)\<rparr>)"
      using ui l2 ru rv False a(1)
      by (intro uf_inv_linked_rank[where a=rx and b=ry]) auto
    consider (lt) "at (rank s) rx < at (rank s) ry"
      | (gt) "at (rank s) ry < at (rank s) rx"
      | (eq) "at (rank s) rx = at (rank s) ry" by linarith
    then show ?thesis
    proof cases
      case lt
      have "unite s x y = Some (Inr (True, s\<lparr>parent := upd p2 rx ry, components := components s - 1\<rparr>))"
        using False lt a(1) b(1) nm by (simp add: unite_def f1 f2 Let_def)
      moreover have "unionSets s x y = Some (Inr (s\<lparr>parent := upd p2 rx ry\<rparr>))"
        using False lt a(1) b(1) by (simp add: unionSets_def f1 f2 Let_def)
      moreover have "doc_inv (s\<lparr>parent := upd p2 rx ry, components := components s - 1\<rparr>)"
        using u1 c1 by (simp add: doc_inv_def uf_inv_components)
      ultimately show ?thesis using False l1
        by - (rule exI[of _ True],
              rule exI[of _ "s\<lparr>parent := upd p2 rx ry, components := components s - 1\<rparr>"], simp)
    next
      case gt
      have "unite s x y = Some (Inr (True, s\<lparr>parent := upd p2 ry rx, components := components s - 1\<rparr>))"
        using False gt a(1) b(1) nm by (simp add: unite_def f1 f2 Let_def)
      moreover have "unionSets s x y = Some (Inr (s\<lparr>parent := upd p2 ry rx\<rparr>))"
        using False gt a(1) b(1) by (simp add: unionSets_def f1 f2 Let_def)
      moreover have "doc_inv (s\<lparr>parent := upd p2 ry rx, components := components s - 1\<rparr>)"
        using u2 c2 by (simp add: doc_inv_def uf_inv_components)
      ultimately show ?thesis using False l2
        by - (rule exI[of _ True],
              rule exI[of _ "s\<lparr>parent := upd p2 ry rx, components := components s - 1\<rparr>"], simp)
    next
      case eq
      have "unite s x y = Some (Inr (True, s\<lparr>parent := upd p2 ry rx,
              rank := upd (rank s) rx (at (rank s) rx + 1), components := components s - 1\<rparr>))"
        using False eq a(1,2) b(1) nm by (simp add: unite_def f1 f2 Let_def)
      moreover have "unionSets s x y = Some (Inr (s\<lparr>parent := upd p2 ry rx,
              rank := upd (rank s) rx (at (rank s) rx + 1)\<rparr>))"
        using False eq a(1,2) b(1) by (simp add: unionSets_def f1 f2 Let_def)
      moreover have "doc_inv (s\<lparr>parent := upd p2 ry rx,
              rank := upd (rank s) rx (at (rank s) rx + 1), components := components s - 1\<rparr>)"
        using u3 c2 by (simp add: doc_inv_def uf_inv_components)
      ultimately show ?thesis using False l2
        by - (rule exI[of _ True],
              rule exI[of _ "s\<lparr>parent := upd p2 ry rx,
                rank := upd (rank s) rx (at (rank s) rx + 1), components := components s - 1\<rparr>"], simp)
    qed
  qed
qed

lemma same_root_iff: "chain p x rx \<Longrightarrow> chain p y ry \<Longrightarrow> same_root p x y \<longleftrightarrow> rx = ry"
  unfolding same_root_def using chain_unique by blast

lemma example_doc_init:
  "UnionFind_doc_init 3 = Inr \<lparr>parent = [0, 1, 2], rank = [0, 0, 0], components = 3\<rparr>"
  by (simp add: ev)

lemma example_doc_inv: "doc_inv \<lparr>parent = [0, 1, 2], rank = [0, 0, 0], components = 3\<rparr>"
  using example_doc_init by (rule doc_inv_init(1)) (simp add: INT_MAX_def)

text \<open>
  C1. The union of the documented class (\<open>unite\<close>, which is \<open>unionSets\<close> of
  UnionFind.cpp with a result and a counter) on two elements in range: it returns false
  exactly when the two elements already share a root, and then merges nothing: every
  element keeps its root, the ranks and the counter are untouched; it returns true
  exactly when the roots differ, and then the two elements share a root afterwards and
  there is one root less. The parent and rank arrays it leaves are those \<open>unionSets\<close>
  leaves. On the edges (0,1), (1,2), (2,0) over three elements the third call returns
  false, and \<open>hasCycle\<close> reports the cycle.
\<close>

theorem unite_reports_merge:
  assumes "doc_inv s" and "in_range (parent s) x" and "in_range (parent s) y"
  shows "(\<exists>m s'. unite s x y = Some (Inr (m, s')) \<and>
            (m \<longleftrightarrow> \<not> same_root (parent s) x y) \<and>
            (\<not> m \<longrightarrow> same_sets (parent s) (parent s') \<and> roots (parent s') = roots (parent s) \<and>
                     rank s' = rank s \<and> components s' = components s) \<and>
            (m \<longrightarrow> same_root (parent s') x y \<and>
                   int (card (roots (parent s'))) = int (card (roots (parent s))) - 1) \<and>
            unionSets s x y = Some (Inr (s'\<lparr>components := components s\<rparr>))) \<and>
         unite \<lparr>parent = [0, 1, 2], rank = [0, 0, 0], components = 3\<rparr> 0 1
           = Some (Inr (True, \<lparr>parent = [0, 0, 2], rank = [1, 0, 0], components = 2\<rparr>)) \<and>
         unite \<lparr>parent = [0, 0, 2], rank = [1, 0, 0], components = 2\<rparr> 1 2
           = Some (Inr (True, \<lparr>parent = [0, 0, 0], rank = [1, 0, 0], components = 1\<rparr>)) \<and>
         unite \<lparr>parent = [0, 0, 0], rank = [1, 0, 0], components = 1\<rparr> 2 0
           = Some (Inr (False, \<lparr>parent = [0, 0, 0], rank = [1, 0, 0], components = 1\<rparr>)) \<and>
         UnionFind_doc_init 3 = Inr \<lparr>parent = [0, 1, 2], rank = [0, 0, 0], components = 3\<rparr> \<and>
         hasCycle 3 [(0, 1), (1, 2), (2, 0)] = Some (Inr True)"
proof -
  have w: "wf_parent (parent s)" using assms(1) by (simp add: doc_inv_def uf_inv_def)
  obtain rx ry where cx: "chain (parent s) x rx" and cy: "chain (parent s) y ry"
    using w assms(2,3) wf_parent_chain by blast
  have rx: "is_root (parent s) rx" and ry: "is_root (parent s) ry"
    using cx cy by (auto intro: chain_is_root)
  from unite_effect[OF assms(1) cx cy] obtain m s' where
    u: "unite s x y = Some (Inr (m, s'))" and m: "m = (rx \<noteq> ry)" and
    n: "\<not> m \<longrightarrow> same_sets (parent s) (parent s') \<and> rank s' = rank s" and
    c: "components s' = (if m then components s - 1 else components s)" and
    l: "m \<longrightarrow> linked (parent s) rx ry (parent s') \<or> linked (parent s) ry rx (parent s')" and
    v: "unionSets s x y = Some (Inr (s'\<lparr>components := components s\<rparr>))"
    by blast
  have sr: "same_root (parent s) x y \<longleftrightarrow> rx = ry" using cx cy by (rule same_root_iff)
  have a: "m \<longleftrightarrow> \<not> same_root (parent s) x y" using m sr by simp
  have b: "\<not> m \<longrightarrow> same_sets (parent s) (parent s') \<and> roots (parent s') = roots (parent s) \<and>
                     rank s' = rank s \<and> components s' = components s"
    using n c same_sets_roots by auto
  have d: "same_root (parent s') x y \<and>
             int (card (roots (parent s'))) = int (card (roots (parent s))) - 1" if mm: "m"
  proof -
    have ne: "rx \<noteq> ry" using m mm by simp
    from l mm consider (one) "linked (parent s) rx ry (parent s')"
      | (two) "linked (parent s) ry rx (parent s')" by blast
    then show ?thesis
    proof cases
      case one
      show ?thesis
        using linked_same_root[OF one rx ry ne, of x y] linked_card_roots[OF one rx ry ne] cx cy
        by simp
    next
      case two
      show ?thesis
        using linked_same_root[OF two ry rx ne[symmetric], of x y]
          linked_card_roots[OF two ry rx ne[symmetric]] cx cy
        by simp
    qed
  qed
  have first: "\<exists>m s'. unite s x y = Some (Inr (m, s')) \<and>
            (m \<longleftrightarrow> \<not> same_root (parent s) x y) \<and>
            (\<not> m \<longrightarrow> same_sets (parent s) (parent s') \<and> roots (parent s') = roots (parent s) \<and>
                     rank s' = rank s \<and> components s' = components s) \<and>
            (m \<longrightarrow> same_root (parent s') x y \<and>
                   int (card (roots (parent s'))) = int (card (roots (parent s))) - 1) \<and>
            unionSets s x y = Some (Inr (s'\<lparr>components := components s\<rparr>))"
    using u a b d v by blast
  have e1: "unite \<lparr>parent = [0, 1, 2], rank = [0, 0, 0], components = 3\<rparr> 0 1
           = Some (Inr (True, \<lparr>parent = [0, 0, 2], rank = [1, 0, 0], components = 2\<rparr>))"
    by (simp add: ev)
  have e2: "unite \<lparr>parent = [0, 0, 2], rank = [1, 0, 0], components = 2\<rparr> 1 2
           = Some (Inr (True, \<lparr>parent = [0, 0, 0], rank = [1, 0, 0], components = 1\<rparr>))"
    by (simp add: ev)
  have e3: "unite \<lparr>parent = [0, 0, 0], rank = [1, 0, 0], components = 1\<rparr> 2 0
           = Some (Inr (False, \<lparr>parent = [0, 0, 0], rank = [1, 0, 0], components = 1\<rparr>))"
    by (simp add: ev)
  have e4: "hasCycle 3 [(0, 1), (1, 2), (2, 0)] = Some (Inr True)"
    by (simp add: ev)
  show ?thesis using first e1 e2 e3 e4 example_doc_init by blast
qed

theorem unite_reports_merge_witness:
  "doc_inv \<lparr>parent = [0, 1, 2], rank = [0, 0, 0], components = 3\<rparr> \<and>
   in_range (parent \<lparr>parent = [0, 1, 2], rank = [0, 0, 0], components = 3\<rparr>) 0 \<and>
   in_range (parent \<lparr>parent = [0, 1, 2], rank = [0, 0, 0], components = 3\<rparr>) 1 \<and>
   (\<exists>m s'. unite \<lparr>parent = [0, 1, 2], rank = [0, 0, 0], components = 3\<rparr> 0 1 = Some (Inr (m, s')) \<and>
      (m \<longleftrightarrow> \<not> same_root [0, 1, 2] 0 1) \<and> m)"
proof -
  have i: "doc_inv \<lparr>parent = [0, 1, 2], rank = [0, 0, 0], components = 3\<rparr>" by (rule example_doc_inv)
  have a: "in_range (parent \<lparr>parent = [0, 1, 2], rank = [0, 0, 0], components = 3\<rparr>) 0"
    and b: "in_range (parent \<lparr>parent = [0, 1, 2], rank = [0, 0, 0], components = 3\<rparr>) 1"
    by (simp_all add: in_range_def)
  have e1: "unite \<lparr>parent = [0, 1, 2], rank = [0, 0, 0], components = 3\<rparr> 0 1
           = Some (Inr (True, \<lparr>parent = [0, 0, 2], rank = [1, 0, 0], components = 2\<rparr>))"
    by (simp add: ev)
  from unite_reports_merge[OF i a b] i a b e1 show ?thesis by auto
qed

lemma doc_find_effect:
  assumes i: "doc_inv s" and d: "find_uf s u = Some (Inr (r, s'))"
  shows "doc_inv s' \<and> components s' = components s"
proof -
  have ui: "uf_inv s" using i by (simp add: doc_inv_def)
  from find_effect[OF ui d] have c: "chain (parent s) u r" and ss: "same_sets (parent s) (parent s')"
    and u': "uf_inv s'" by simp_all
  from find_uf_chain[OF c] d obtain p1 where "s' = s\<lparr>parent := p1\<rparr>" by auto
  then have "components s' = components s" by simp
  then show ?thesis using i u' same_sets_roots[OF ss] by (simp add: doc_inv_def)
qed

lemma doc_connected_effect:
  assumes i: "doc_inv s" and d: "connected s u v = Some (Inr (b, s'))"
  shows "doc_inv s' \<and> components s' = components s"
proof -
  from d obtain ru s1 rv where f1: "find_uf s u = Some (Inr (ru, s1))"
    and f2: "find_uf s1 v = Some (Inr (rv, s'))"
    by (auto simp: connected_def split: option.splits sum.splits)
  from doc_find_effect[OF i f1] have "doc_inv s1" "components s1 = components s" by simp_all
  with doc_find_effect[OF _ f2] show ?thesis by simp
qed

text \<open>
  C2. The documented class keeps a component counter. The constructor sets it to \<open>n\<close>
  for every \<open>n \<ge> 0\<close>. In a state that satisfies the invariant (the initial state does,
  and every operation keeps it), a union of two elements in range decrements the counter
  by one exactly when it merges (when it returns true) and leaves it otherwise; \<open>find\<close>
  and \<open>connected\<close> leave it; it always equals the number of roots. On five elements
  and the edges (0,1), (1,2), (3,4), \<open>countComponents\<close> returns 2.
\<close>

theorem component_counter:
  assumes "doc_inv s"
  shows "(0 \<le> n \<longrightarrow> (\<exists>s0. UnionFind_doc_init n = Inr s0 \<and> getComponents s0 = n \<and>
                           (n \<le> INT_MAX \<longrightarrow> doc_inv s0))) \<and>
         (in_range (parent s) x \<and> in_range (parent s) y \<longrightarrow>
            (\<exists>m s'. unite s x y = Some (Inr (m, s')) \<and>
               (m \<longleftrightarrow> \<not> same_root (parent s) x y) \<and>
               getComponents s' = (if m then getComponents s - 1 else getComponents s) \<and>
               doc_inv s')) \<and>
         (\<forall>r s'. find_uf s x = Some (Inr (r, s')) \<longrightarrow>
               getComponents s' = getComponents s \<and> doc_inv s') \<and>
         (\<forall>b s'. connected s x y = Some (Inr (b, s')) \<longrightarrow>
               getComponents s' = getComponents s \<and> doc_inv s') \<and>
         getComponents s = int (card (roots (parent s))) \<and>
         countComponents 5 [(0, 1), (1, 2), (3, 4)] = Some (Inr 2)"
proof -
  have p1: "0 \<le> n \<longrightarrow> (\<exists>s0. UnionFind_doc_init n = Inr s0 \<and> getComponents s0 = n \<and>
                           (n \<le> INT_MAX \<longrightarrow> doc_inv s0))"
  proof
    assume n: "0 \<le> n"
    then obtain s0 where s0: "UnionFind_doc_init n = Inr s0" by (simp add: UnionFind_doc_init_def)
    then have "components s0 = n" using n by (auto simp: UnionFind_doc_init_def)
    moreover have "n \<le> INT_MAX \<longrightarrow> doc_inv s0" using doc_inv_init(1)[OF s0] by blast
    ultimately show "\<exists>s0. UnionFind_doc_init n = Inr s0 \<and> getComponents s0 = n \<and>
                           (n \<le> INT_MAX \<longrightarrow> doc_inv s0)"
      using s0 by (simp add: getComponents_def)
  qed
  have p2: "in_range (parent s) x \<and> in_range (parent s) y \<longrightarrow>
            (\<exists>m s'. unite s x y = Some (Inr (m, s')) \<and>
               (m \<longleftrightarrow> \<not> same_root (parent s) x y) \<and>
               getComponents s' = (if m then getComponents s - 1 else getComponents s) \<and>
               doc_inv s')"
  proof
    assume r: "in_range (parent s) x \<and> in_range (parent s) y"
    have w: "wf_parent (parent s)" using assms by (simp add: doc_inv_def uf_inv_def)
    obtain rx ry where cx: "chain (parent s) x rx" and cy: "chain (parent s) y ry"
      using w r wf_parent_chain by blast
    from unite_effect[OF assms cx cy] obtain m s' where
      u: "unite s x y = Some (Inr (m, s'))" and m: "m = (rx \<noteq> ry)" and i': "doc_inv s'" and
      c: "components s' = (if m then components s - 1 else components s)"
      by blast
    have "m \<longleftrightarrow> \<not> same_root (parent s) x y" using m same_root_iff[OF cx cy] by simp
    then show "\<exists>m s'. unite s x y = Some (Inr (m, s')) \<and>
               (m \<longleftrightarrow> \<not> same_root (parent s) x y) \<and>
               getComponents s' = (if m then getComponents s - 1 else getComponents s) \<and>
               doc_inv s'"
      using u i' c unfolding getComponents_def by blast
  qed
  have p3: "\<forall>r s'. find_uf s x = Some (Inr (r, s')) \<longrightarrow>
               getComponents s' = getComponents s \<and> doc_inv s'"
    using doc_find_effect[OF assms] by (simp add: getComponents_def)
  have p4: "\<forall>b s'. connected s x y = Some (Inr (b, s')) \<longrightarrow>
               getComponents s' = getComponents s \<and> doc_inv s'"
    using doc_connected_effect[OF assms] by (simp add: getComponents_def)
  have p5: "getComponents s = int (card (roots (parent s)))"
    using assms by (simp add: doc_inv_def getComponents_def)
  have p6: "countComponents 5 [(0, 1), (1, 2), (3, 4)] = Some (Inr 2)"
    by (simp add: ev)
  show ?thesis using p1 p2 p3 p4 p5 p6 by blast
qed

theorem component_counter_witness:
  "doc_inv \<lparr>parent = [0, 1, 2], rank = [0, 0, 0], components = 3\<rparr> \<and>
   (0::int) \<le> 3 \<and> (3::int) \<le> INT_MAX \<and>
   in_range [0, 1, 2] 0 \<and> in_range [0, 1, 2] 1 \<and>
   UnionFind_doc_init 3 = Inr \<lparr>parent = [0, 1, 2], rank = [0, 0, 0], components = 3\<rparr> \<and>
   getComponents \<lparr>parent = [0, 1, 2], rank = [0, 0, 0], components = 3\<rparr> = 3 \<and>
   unite \<lparr>parent = [0, 1, 2], rank = [0, 0, 0], components = 3\<rparr> 0 1
     = Some (Inr (True, \<lparr>parent = [0, 0, 2], rank = [1, 0, 0], components = 2\<rparr>)) \<and>
   find_uf \<lparr>parent = [0, 1, 2], rank = [0, 0, 0], components = 3\<rparr> 0
     = Some (Inr (0, \<lparr>parent = [0, 1, 2], rank = [0, 0, 0], components = 3\<rparr>)) \<and>
   connected \<lparr>parent = [0, 1, 2], rank = [0, 0, 0], components = 3\<rparr> 0 1
     = Some (Inr (False, \<lparr>parent = [0, 1, 2], rank = [0, 0, 0], components = 3\<rparr>)) \<and>
   (\<exists>m s'. unite \<lparr>parent = [0, 1, 2], rank = [0, 0, 0], components = 3\<rparr> 0 1 = Some (Inr (m, s')) \<and>
      getComponents s' = (if m then 3 - 1 else 3) \<and> doc_inv s') \<and>
   int (card (roots [0, 1, 2])) = 3"
proof -
  have i: "doc_inv \<lparr>parent = [0, 1, 2], rank = [0, 0, 0], components = 3\<rparr>" by (rule example_doc_inv)
  have a: "in_range [0, 1, 2] 0" "in_range [0, 1, 2] 1" by (simp_all add: in_range_def)
  have e1: "unite \<lparr>parent = [0, 1, 2], rank = [0, 0, 0], components = 3\<rparr> 0 1
     = Some (Inr (True, \<lparr>parent = [0, 0, 2], rank = [1, 0, 0], components = 2\<rparr>))"
    by (simp add: ev)
  have e2: "find_uf \<lparr>parent = [0, 1, 2], rank = [0, 0, 0], components = 3\<rparr> 0
     = Some (Inr (0, \<lparr>parent = [0, 1, 2], rank = [0, 0, 0], components = 3\<rparr>))"
    by (simp add: ev)
  have e3: "connected \<lparr>parent = [0, 1, 2], rank = [0, 0, 0], components = 3\<rparr> 0 1
     = Some (Inr (False, \<lparr>parent = [0, 1, 2], rank = [0, 0, 0], components = 3\<rparr>))"
    by (simp add: ev)
  have g: "getComponents \<lparr>parent = [0, 1, 2], rank = [0, 0, 0], components = 3\<rparr> = 3"
    by (simp add: getComponents_def)
  have m: "(3::int) \<le> INT_MAX" by (simp add: INT_MAX_def)
  from component_counter[OF i, of 3 0 1] i a e1 e2 e3 g m example_doc_init
  show ?thesis by (auto simp: getComponents_def)
qed

lemma example3_init: "UnionFind_init 3 = Inr \<lparr>parent = [0, 1, 2], rank = [0, 0, 0]\<rparr>"
  by (simp add: ev)

lemma example3_run:
  "run \<lparr>parent = [0, 1, 2], rank = [0, 0, 0]\<rparr> [UnionSets 0 1]
     = Some (Inr \<lparr>parent = [0, 0, 2], rank = [1, 0, 0]\<rparr>)"
  by (simp add: ev)

lemma example3_inv:
  "uf_inv \<lparr>parent = [0, 1, 2], rank = [0, 0, 0]\<rparr>"
  "uf_inv \<lparr>parent = [0, 0, 2], rank = [1, 0, 0]\<rparr>"
proof -
  show a: "uf_inv \<lparr>parent = [0, 1, 2], rank = [0, 0, 0]\<rparr>"
    using example3_init by (rule uf_inv_init(1)) (simp add: INT_MAX_def)
  show "uf_inv \<lparr>parent = [0, 0, 2], rank = [1, 0, 0]\<rparr>"
    using a example3_run by (rule uf_inv_run)
qed

lemma example3_chains:
  "chain [0, 1, 2] 0 0" "chain [0, 1, 2] 1 1" "chain [0, 1, 2] 2 2"
  "chain [0, 0, 2] 0 0" "chain [0, 0, 2] 1 0" "chain [0, 0, 2] 2 2"
proof -
  show "chain [0, 1, 2] 0 0" "chain [0, 1, 2] 1 1" "chain [0, 1, 2] 2 2"
    by (rule chain_root; simp add: in_range_def at_def)+
  show c0: "chain [0, 0, 2] 0 0" by (rule chain_root) (simp_all add: in_range_def at_def)
  show "chain [0, 0, 2] 1 0" by (rule chain_via[where w=0]) (simp_all add: in_range_def at_def c0)
  show "chain [0, 0, 2] 2 2" by (rule chain_root) (simp_all add: in_range_def at_def)
qed

text \<open>
  C7. \<open>unionSets\<close> (union by rank) on two elements whose roots \<open>rx\<close> and \<open>ry\<close>
  differ: when the rank of \<open>rx\<close> is lower, \<open>rx\<close> is attached under \<open>ry\<close>; when it is
  higher, \<open>ry\<close> is attached under \<open>rx\<close>; in both cases no rank changes. When the ranks
  are equal, \<open>ry\<close> is attached under \<open>rx\<close> and the rank of \<open>rx\<close> alone goes up by
  one. When the roots are equal no rank changes.
\<close>

theorem union_by_rank_policy:
  assumes "uf_inv s" and "chain (parent s) x rx" and "chain (parent s) y ry"
  shows "\<exists>s'. unionSets s x y = Some (Inr s') \<and>
           (rx \<noteq> ry \<and> at (rank s) rx < at (rank s) ry \<longrightarrow>
              at (parent s') rx = ry \<and> is_root (parent s') ry \<and> rank s' = rank s) \<and>
           (rx \<noteq> ry \<and> at (rank s) ry < at (rank s) rx \<longrightarrow>
              at (parent s') ry = rx \<and> is_root (parent s') rx \<and> rank s' = rank s) \<and>
           (rx \<noteq> ry \<and> at (rank s) rx = at (rank s) ry \<longrightarrow>
              at (parent s') ry = rx \<and> is_root (parent s') rx \<and>
              length (rank s') = length (rank s) \<and>
              (\<forall>i. in_range (rank s) i \<longrightarrow>
                 at (rank s') i = (if i = rx then at (rank s) rx + 1 else at (rank s) i))) \<and>
           (rx = ry \<longrightarrow> rank s' = rank s)"
proof -
  have rx: "is_root (parent s) rx" and ry: "is_root (parent s) ry"
    using assms(2,3) by (auto intro: chain_is_root)
  have ir: "in_range (rank s) rx" using uf_inv_rank_lt(1)[OF assms(1) rx] .
  from unionSets_result[OF assms] obtain p2 where ss: "same_sets (parent s) p2" and
    e: "unionSets s x y = Some (Inr
             (if rx = ry then s\<lparr>parent := p2\<rparr>
              else if at (rank s) rx < at (rank s) ry then s\<lparr>parent := upd p2 rx ry\<rparr>
              else if at (rank s) ry < at (rank s) rx then s\<lparr>parent := upd p2 ry rx\<rparr>
              else s\<lparr>parent := upd p2 ry rx, rank := upd (rank s) rx (at (rank s) rx + 1)\<rparr>))"
    by blast
  have l1: "linked (parent s) ry rx (upd p2 rx ry)" and l2: "linked (parent s) rx ry (upd p2 ry rx)"
    using ss by (simp_all add: linkedI)
  have a1: "at (upd p2 rx ry) rx = ry \<and> is_root (upd p2 rx ry) ry" if "rx \<noteq> ry"
    using linked_at[OF l1 ry rx] that by auto
  have a2: "at (upd p2 ry rx) ry = rx \<and> is_root (upd p2 ry rx) rx" if "rx \<noteq> ry"
    using linked_at[OF l2 rx ry] that by auto
  have a3: "\<forall>i. in_range (rank s) i \<longrightarrow>
      at (upd (rank s) rx (at (rank s) rx + 1)) i = (if i = rx then at (rank s) rx + 1 else at (rank s) i)"
    using at_upd[OF ir] by simp
  show ?thesis
    unfolding e using a1 a2 a3 by (auto simp: length_upd)
qed

theorem union_by_rank_policy_witness:
  "uf_inv \<lparr>parent = [0, 0, 2], rank = [1, 0, 0]\<rparr> \<and>
   chain (parent \<lparr>parent = [0, 0, 2], rank = [1, 0, 0]\<rparr>) 1 0 \<and>
   chain (parent \<lparr>parent = [0, 0, 2], rank = [1, 0, 0]\<rparr>) 2 2 \<and>
   (0::int) \<noteq> 2 \<and> at (rank \<lparr>parent = [0, 0, 2], rank = [1, 0, 0]\<rparr>) 2 < at (rank \<lparr>parent = [0, 0, 2], rank = [1, 0, 0]\<rparr>) 0 \<and>
   unionSets \<lparr>parent = [0, 0, 2], rank = [1, 0, 0]\<rparr> 1 2 = Some (Inr \<lparr>parent = [0, 0, 0], rank = [1, 0, 0]\<rparr>) \<and>
   (\<exists>s'. unionSets \<lparr>parent = [0, 0, 2], rank = [1, 0, 0]\<rparr> 1 2 = Some (Inr s') \<and>
      at (parent s') 2 = 0 \<and> is_root (parent s') 0 \<and> rank s' = [1, 0, 0])"
proof -
  have i: "uf_inv \<lparr>parent = [0, 0, 2], rank = [1, 0, 0]\<rparr>" by (rule example3_inv(2))
  have c1: "chain (parent \<lparr>parent = [0, 0, 2], rank = [1, 0, 0]\<rparr>) 1 0"
    and c2: "chain (parent \<lparr>parent = [0, 0, 2], rank = [1, 0, 0]\<rparr>) 2 2"
    using example3_chains by simp_all
  have r: "at (rank \<lparr>parent = [0, 0, 2], rank = [1, 0, 0]\<rparr>) 2 < at (rank \<lparr>parent = [0, 0, 2], rank = [1, 0, 0]\<rparr>) 0"
    by (simp add: at_def)
  have e: "unionSets \<lparr>parent = [0, 0, 2], rank = [1, 0, 0]\<rparr> 1 2 = Some (Inr \<lparr>parent = [0, 0, 0], rank = [1, 0, 0]\<rparr>)"
    by (simp add: ev)
  from union_by_rank_policy[OF i c1 c2] obtain s' where
    u: "unionSets \<lparr>parent = [0, 0, 2], rank = [1, 0, 0]\<rparr> 1 2 = Some (Inr s')" and
    g: "(0::int) \<noteq> 2 \<and> at (rank \<lparr>parent = [0, 0, 2], rank = [1, 0, 0]\<rparr>) 2
          < at (rank \<lparr>parent = [0, 0, 2], rank = [1, 0, 0]\<rparr>) 0 \<longrightarrow>
        at (parent s') 2 = 0 \<and> is_root (parent s') 0 \<and>
        rank s' = rank \<lparr>parent = [0, 0, 2], rank = [1, 0, 0]\<rparr>"
    by blast
  have h: "at (parent s') 2 = 0 \<and> is_root (parent s') 0 \<and> rank s' = [1, 0, 0]"
    using g r by simp
  have x: "\<exists>s'. unionSets \<lparr>parent = [0, 0, 2], rank = [1, 0, 0]\<rparr> 1 2 = Some (Inr s') \<and>
      at (parent s') 2 = 0 \<and> is_root (parent s') 0 \<and> rank s' = [1, 0, 0]"
    using u h by (intro exI[of _ s']) simp
  have n: "(0::int) \<noteq> 2" by simp
  show ?thesis using i c1 c2 n r e x by (intro conjI)
qed

lemma compressed_unique:
  assumes "compressed p u r p1" and "compressed p u r p2"
  shows "p1 = p2"
proof (rule list_eq_atI)
  show "length p1 = length p2" using assms by (simp add: compressed_def)
next
  fix i assume "in_range p1 i"
  then have "in_range p i" using assms(1) by (simp add: compressed_in_range)
  then show "at p1 i = at p2 i" using assms by (simp add: compressed_def)
qed

lemma unionSets3_false_attach:
  assumes "chain (parent s) u ru" and "chain (parent s) v rv" and "ru \<noteq> rv"
  shows "(\<exists>s'. unionSets3 s u v False = Some (Inr s') \<and>
            at (parent s') rv = ru \<and> is_root (parent s') ru \<and> rank s' = rank s \<and>
            linked (parent s) ru rv (parent s') \<and>
            (\<forall>rk. unionSets3 (s\<lparr>rank := rk\<rparr>) u v False = Some (Inr (s'\<lparr>rank := rk\<rparr>))))"
proof -
  have ru: "is_root (parent s) ru" and rv: "is_root (parent s) rv"
    using assms(1,2) by (auto intro: chain_is_root)
  from find_uf_twice[OF assms(1,2)] obtain p1 p2 where
    f1: "find_uf s u = Some (Inr (ru, s\<lparr>parent := p1\<rparr>))" and
    f2: "find_uf (s\<lparr>parent := p1\<rparr>) v = Some (Inr (rv, s\<lparr>parent := p2\<rparr>))" and
    k1: "compressed (parent s) u ru p1" and k2: "compressed p1 v rv p2" and
    ss: "same_sets (parent s) p2" by blast
  have e: "unionSets3 s u v False = Some (Inr (s\<lparr>parent := upd p2 rv ru\<rparr>))"
    using assms(3) by (simp add: unionSets3_def f1 f2)
  have l: "linked (parent s) ru rv (upd p2 rv ru)" using ss by (rule linkedI)
  have a: "at (upd p2 rv ru) rv = ru" "is_root (upd p2 rv ru) ru"
    using linked_at[OF l ru rv assms(3)] by simp_all
  have g: "unionSets3 (s\<lparr>rank := rk\<rparr>) u v False
             = Some (Inr (s\<lparr>parent := upd p2 rv ru\<rparr>\<lparr>rank := rk\<rparr>))" for rk
  proof -
    have cu: "chain (parent (s\<lparr>rank := rk\<rparr>)) u ru" and cv: "chain (parent (s\<lparr>rank := rk\<rparr>)) v rv"
      using assms(1,2) by simp_all
    from find_uf_twice[OF cu cv] obtain q1 q2 where
      g1: "find_uf (s\<lparr>rank := rk\<rparr>) u = Some (Inr (ru, s\<lparr>rank := rk\<rparr>\<lparr>parent := q1\<rparr>))" and
      g2: "find_uf (s\<lparr>rank := rk\<rparr>\<lparr>parent := q1\<rparr>) v
             = Some (Inr (rv, s\<lparr>rank := rk\<rparr>\<lparr>parent := q2\<rparr>))" and
      j1: "compressed (parent s) u ru q1" and j2: "compressed q1 v rv q2"
      by auto
    have q1: "q1 = p1" using j1 k1 by (rule compressed_unique)
    have q2: "q2 = p2" using j2 k2 unfolding q1 by (rule compressed_unique)
    show ?thesis using assms(3) by (simp add: unionSets3_def g1 g2 q2)
  qed
  show ?thesis
    unfolding e using a l g by simp
qed

text \<open>
  C10. The three-argument \<open>unionSets\<close>: with \<open>byRank\<close> true it is the two-argument
  union by rank. With \<open>byRank\<close> false, on two elements whose roots \<open>ru\<close> and \<open>rv\<close>
  differ, the root of \<open>v\<close> is attached under the root of \<open>u\<close>, whatever the ranks are:
  the rank array is returned as it was, and the outcome is the same for any other rank
  array put in its place.
\<close>

theorem unionSets3_overload:
  "unionSets3 s u v True = unionSets s u v \<and>
   (chain (parent s) u ru \<and> chain (parent s) v rv \<and> ru \<noteq> rv \<longrightarrow>
      (\<exists>s'. unionSets3 s u v False = Some (Inr s') \<and>
         at (parent s') rv = ru \<and> is_root (parent s') ru \<and> rank s' = rank s \<and>
         linked (parent s) ru rv (parent s') \<and>
         (\<forall>rk. unionSets3 (s\<lparr>rank := rk\<rparr>) u v False = Some (Inr (s'\<lparr>rank := rk\<rparr>)))))"
proof
  show "unionSets3 s u v True = unionSets s u v" by (simp add: unionSets3_def)
next
  show "chain (parent s) u ru \<and> chain (parent s) v rv \<and> ru \<noteq> rv \<longrightarrow>
      (\<exists>s'. unionSets3 s u v False = Some (Inr s') \<and>
         at (parent s') rv = ru \<and> is_root (parent s') ru \<and> rank s' = rank s \<and>
         linked (parent s) ru rv (parent s') \<and>
         (\<forall>rk. unionSets3 (s\<lparr>rank := rk\<rparr>) u v False = Some (Inr (s'\<lparr>rank := rk\<rparr>))))"
    using unionSets3_false_attach by blast
qed

theorem unionSets3_overload_witness:
  "chain (parent \<lparr>parent = [0, 0, 2], rank = [1, 0, 0]\<rparr>) 2 2 \<and>
   chain (parent \<lparr>parent = [0, 0, 2], rank = [1, 0, 0]\<rparr>) 1 0 \<and> (2::int) \<noteq> 0 \<and>
   unionSets3 \<lparr>parent = [0, 0, 2], rank = [1, 0, 0]\<rparr> 2 1 False
     = Some (Inr \<lparr>parent = [2, 0, 2], rank = [1, 0, 0]\<rparr>) \<and>
   unionSets \<lparr>parent = [0, 0, 2], rank = [1, 0, 0]\<rparr> 2 1
     = Some (Inr \<lparr>parent = [0, 0, 0], rank = [1, 0, 0]\<rparr>) \<and>
   unionSets3 \<lparr>parent = [0, 0, 2], rank = [1, 0, 0]\<rparr> 2 1 True
     = unionSets \<lparr>parent = [0, 0, 2], rank = [1, 0, 0]\<rparr> 2 1 \<and>
   (\<exists>s'. unionSets3 \<lparr>parent = [0, 0, 2], rank = [1, 0, 0]\<rparr> 2 1 False = Some (Inr s') \<and>
      at (parent s') 0 = 2 \<and> is_root (parent s') 2 \<and> rank s' = [1, 0, 0])"
proof -
  have c1: "chain (parent \<lparr>parent = [0, 0, 2], rank = [1, 0, 0]\<rparr>) 2 2"
    and c2: "chain (parent \<lparr>parent = [0, 0, 2], rank = [1, 0, 0]\<rparr>) 1 0"
    using example3_chains by simp_all
  have n: "(2::int) \<noteq> 0" by simp
  have e1: "unionSets3 \<lparr>parent = [0, 0, 2], rank = [1, 0, 0]\<rparr> 2 1 False
     = Some (Inr \<lparr>parent = [2, 0, 2], rank = [1, 0, 0]\<rparr>)"
    by (simp add: ev)
  have e2: "unionSets \<lparr>parent = [0, 0, 2], rank = [1, 0, 0]\<rparr> 2 1
     = Some (Inr \<lparr>parent = [0, 0, 0], rank = [1, 0, 0]\<rparr>)"
    by (simp add: ev)
  note th = unionSets3_overload[of "\<lparr>parent = [0, 0, 2], rank = [1, 0, 0]\<rparr>" 2 1 2 0]
  have t: "unionSets3 \<lparr>parent = [0, 0, 2], rank = [1, 0, 0]\<rparr> 2 1 True
     = unionSets \<lparr>parent = [0, 0, 2], rank = [1, 0, 0]\<rparr> 2 1"
    using th by (rule conjunct1)
  from th c1 c2 n obtain s' where
    u: "unionSets3 \<lparr>parent = [0, 0, 2], rank = [1, 0, 0]\<rparr> 2 1 False = Some (Inr s')" and
    a: "at (parent s') 0 = 2" "is_root (parent s') 2"
       "rank s' = rank \<lparr>parent = [0, 0, 2], rank = [1, 0, 0]\<rparr>"
    by blast
  have x: "\<exists>s'. unionSets3 \<lparr>parent = [0, 0, 2], rank = [1, 0, 0]\<rparr> 2 1 False = Some (Inr s') \<and>
      at (parent s') 0 = 2 \<and> is_root (parent s') 2 \<and> rank s' = [1, 0, 0]"
    using u a by (intro exI[of _ s']) simp
  show ?thesis using c1 c2 n e1 e2 t x by (intro conjI)
qed

lemma set_of_subset: "set_of p r \<subseteq> {0..<int (length p)}"
  using chain_in_range by (auto simp: set_of_def in_range_def)

lemma finite_set_of: "finite (set_of p r)"
  using set_of_subset by (rule finite_subset) simp

lemma set_of_disjoint: "a \<noteq> b \<Longrightarrow> set_of p a \<inter> set_of p b = {}"
  using chain_unique by (auto simp: set_of_def)

lemma same_sets_set_of: "same_sets p q \<Longrightarrow> set_of q r = set_of p r"
  by (simp add: set_of_def same_sets_def)

lemma linked_set_of:
  assumes l: "linked p a b q" and r: "is_root p a" "is_root p b" "a \<noteq> b"
  shows "set_of q a = set_of p a \<union> set_of p b"
    and "x \<noteq> a \<Longrightarrow> x \<noteq> b \<Longrightarrow> set_of q x = set_of p x"
  unfolding set_of_def linked_chain[OF l r] using r(3) by auto

lemma linked_is_root:
  assumes l: "linked p a b q" and r: "is_root p a" "is_root p b" "a \<noteq> b"
  shows "is_root q x \<longleftrightarrow> is_root p x \<and> x \<noteq> b"
  unfolding is_root_iff_chain linked_chain[OF l r]
  using r(1,3) chain_root_eq[OF r(2)] by (auto simp: is_root_iff_chain)

lemma card_two_sets:
  assumes "a \<noteq> b"
  shows "int (card (set_of p a \<union> set_of p b)) = int (card (set_of p a)) + int (card (set_of p b))"
    and "int (card (set_of p a)) + int (card (set_of p b)) \<le> int (length p)"
proof -
  have d: "set_of p a \<inter> set_of p b = {}" using assms by (rule set_of_disjoint)
  have c: "card (set_of p a \<union> set_of p b) = card (set_of p a) + card (set_of p b)"
    using finite_set_of finite_set_of d by (rule card_Un_disjoint)
  then show "int (card (set_of p a \<union> set_of p b)) = int (card (set_of p a)) + int (card (set_of p b))"
    by simp
  have "set_of p a \<union> set_of p b \<subseteq> {0..<int (length p)}" using set_of_subset by blast
  then have "card (set_of p a \<union> set_of p b) \<le> card {0..<int (length p)}"
    by (intro card_mono) simp_all
  then show "int (card (set_of p a)) + int (card (set_of p b)) \<le> int (length p)"
    using c by simp
qed

lemma sizes_exact_linked:
  assumes e: "sizes_exact p sz" and l: "linked p a b q"
    and r: "is_root p a" "is_root p b" "a \<noteq> b"
  shows "sizes_exact q (upd sz a (at sz a + at sz b))"
  unfolding sizes_exact_def
proof (intro conjI allI impI)
  show "length (upd sz a (at sz a + at sz b)) = length q"
    using e linked_length[OF l] by (simp add: sizes_exact_def length_upd)
next
  fix x assume x: "is_root q x"
  then have xp: "is_root p x" and xb: "x \<noteq> b" using linked_is_root[OF l r] by simp_all
  have ia: "in_range sz a" and ix: "in_range sz x"
    using e r(1) xp by (simp_all add: sizes_exact_def is_root_def in_range_def)
  have sa: "at sz a = int (card (set_of p a))" and sb: "at sz b = int (card (set_of p b))"
    and sx: "at sz x = int (card (set_of p x))"
    using e r xp by (simp_all add: sizes_exact_def)
  show "at (upd sz a (at sz a + at sz b)) x = int (card (set_of q x))"
  proof (cases "x = a")
    case True
    then show ?thesis
      using ia sa sb linked_set_of(1)[OF l r] card_two_sets(1)[OF r(3), of p]
      by (simp add: at_upd_same)
  next
    case False
    then show ?thesis
      using at_upd[OF ia ix] sx linked_set_of(2)[OF l r False xb] by simp
  qed
qed

lemma sizes_exact_same_sets: "sizes_exact p sz \<Longrightarrow> same_sets p q \<Longrightarrow> sizes_exact q sz"
  by (simp add: sizes_exact_def same_sets_is_root same_sets_set_of) (simp add: same_sets_def)

lemma sizes_exact_fits:
  assumes e: "sizes_exact p sz" and n: "int (length p) \<le> INT_MAX"
    and r: "is_root p a" "is_root p b" "a \<noteq> b"
  shows "in_range sz a" and "in_range sz b" and "int_ok (at sz a + at sz b)"
proof -
  show "in_range sz a" "in_range sz b"
    using e r by (simp_all add: sizes_exact_def is_root_def in_range_def)
  have "at sz a = int (card (set_of p a))" "at sz b = int (card (set_of p b))"
    using e r by (simp_all add: sizes_exact_def)
  then show "int_ok (at sz a + at sz b)"
    using card_two_sets(2)[OF r(3), of p] n by (simp add: int_ok_def INT_MIN_def)
qed

lemma example_size_run:
  "unionBySize \<lparr>parent = [0, 0, 2], rank = [0, 0, 0]\<rparr> 2 1 [2, 1, 1]
     = Some (Inr (\<lparr>parent = [0, 0, 0], rank = [0, 0, 0]\<rparr>, [3, 1, 1]))"
  by (simp add: ev)

lemma unionSets_connects:
  assumes i: "uf_inv s" and cx: "chain (parent s) x rx" and cy: "chain (parent s) y ry"
  shows "\<exists>s1. unionSets s x y = Some (Inr s1) \<and> uf_inv s1 \<and> same_root (parent s1) x y \<and>
           length (parent s1) = length (parent s) \<and>
           (rx = ry \<longrightarrow> same_sets (parent s) (parent s1) \<and> rank s1 = rank s)"
proof -
  have rx: "is_root (parent s) rx" and ry: "is_root (parent s) ry"
    using cx cy by (auto intro: chain_is_root)
  from unionSets_result[OF i cx cy] obtain p2 where ss: "same_sets (parent s) p2" and
    e: "unionSets s x y = Some (Inr
             (if rx = ry then s\<lparr>parent := p2\<rparr>
              else if at (rank s) rx < at (rank s) ry then s\<lparr>parent := upd p2 rx ry\<rparr>
              else if at (rank s) ry < at (rank s) rx then s\<lparr>parent := upd p2 ry rx\<rparr>
              else s\<lparr>parent := upd p2 ry rx, rank := upd (rank s) rx (at (rank s) rx + 1)\<rparr>))"
    by blast
  then obtain s1 where u: "unionSets s x y = Some (Inr s1)" by blast
  from unionSets_effect[OF i u] have i1: "uf_inv s1" by simp
  have len: "length p2 = length (parent s)" using ss by (simp add: same_sets_def)
  show ?thesis
  proof (cases "rx = ry")
    case True
    then have s1: "s1 = s\<lparr>parent := p2\<rparr>" using e u by simp
    have "same_root (parent s) x y" using cx cy True by (auto simp: same_root_def)
    then have "same_root (parent s1) x y" using s1 ss by (simp add: same_sets_same_root)
    then show ?thesis using u i1 s1 ss len True by simp
  next
    case False
    have l1: "linked (parent s) ry rx (upd p2 rx ry)" and l2: "linked (parent s) rx ry (upd p2 ry rx)"
      using ss by (simp_all add: linkedI)
    have ne: "ry \<noteq> rx" using False by simp
    have c1: "same_root (upd p2 rx ry) x y"
      using linked_same_root[OF l1 ry rx ne, of x y] cx cy by simp
    have c2: "same_root (upd p2 ry rx) x y"
      using linked_same_root[OF l2 rx ry False, of x y] cx cy by simp
    have "parent s1 = upd p2 rx ry \<or> parent s1 = upd p2 ry rx"
      using e u False by (auto split: if_splits)
    then show ?thesis using u i1 c1 c2 len False by (auto simp: length_upd)
  qed
qed

text \<open>
  C5. In a state that satisfies the invariant, for two elements in range: after
  \<open>unionSets x y\<close>, \<open>connected x y\<close> returns true; a second \<open>unionSets x y\<close> leaves
  every pair of elements with a common root exactly when it had one after the first
  call, so that \<open>connected\<close> gives the same answer on every pair in range after the
  second call as after the first; it changes no rank either.
\<close>

theorem union_then_connected:
  assumes "uf_inv s" and "in_range (parent s) x" and "in_range (parent s) y"
  shows "\<exists>s1 s2 s3. unionSets s x y = Some (Inr s1) \<and>
           connected s1 x y = Some (Inr (True, s2)) \<and>
           unionSets s1 x y = Some (Inr s3) \<and>
           (\<forall>a b. same_root (parent s3) a b \<longleftrightarrow> same_root (parent s1) a b) \<and>
           rank s3 = rank s1 \<and>
           (\<forall>a b. in_range (parent s) a \<and> in_range (parent s) b \<longrightarrow>
              (\<exists>c t1 t3. connected s1 a b = Some (Inr (c, t1)) \<and>
                         connected s3 a b = Some (Inr (c, t3))))"
proof -
  have w: "wf_parent (parent s)" using assms(1) by (simp add: uf_inv_def)
  obtain rx ry where cx: "chain (parent s) x rx" and cy: "chain (parent s) y ry"
    using w assms(2,3) wf_parent_chain by blast
  from unionSets_connects[OF assms(1) cx cy] obtain s1 where
    u1: "unionSets s x y = Some (Inr s1)" and i1: "uf_inv s1" and
    sr: "same_root (parent s1) x y" and len: "length (parent s1) = length (parent s)"
    by blast
  from sr obtain r where c1x: "chain (parent s1) x r" and c1y: "chain (parent s1) y r"
    by (auto simp: same_root_def)
  from connected_result[OF c1x c1y] obtain s2 where
    k: "connected s1 x y = Some (Inr (True, s2))" by auto
  from unionSets_connects[OF i1 c1x c1y] obtain s3 where
    u3: "unionSets s1 x y = Some (Inr s3)" and i3: "uf_inv s3" and
    ss: "same_sets (parent s1) (parent s3)" and rk: "rank s3 = rank s1"
    by blast
  have sr3: "\<forall>a b. same_root (parent s3) a b \<longleftrightarrow> same_root (parent s1) a b"
    using ss by (simp add: same_sets_same_root)
  have con: "\<exists>c t1 t3. connected s1 a b = Some (Inr (c, t1)) \<and> connected s3 a b = Some (Inr (c, t3))"
    if ab: "in_range (parent s) a \<and> in_range (parent s) b" for a b
  proof -
    have "in_range (parent s1) a" "in_range (parent s1) b" using ab len by (simp_all add: in_range_def)
    moreover have "wf_parent (parent s1)" using i1 by (simp add: uf_inv_def)
    ultimately obtain ra rb where ca: "chain (parent s1) a ra" and cb: "chain (parent s1) b rb"
      using wf_parent_chain by blast
    have ca3: "chain (parent s3) a ra" and cb3: "chain (parent s3) b rb"
      using ca cb ss by (simp_all add: same_sets_chain)
    from connected_result[OF ca cb] obtain t1 where
      "connected s1 a b = Some (Inr (ra = rb, t1))" by auto
    moreover from connected_result[OF ca3 cb3] obtain t3 where
      "connected s3 a b = Some (Inr (ra = rb, t3))" by auto
    ultimately show ?thesis by blast
  qed
  show ?thesis using u1 k u3 sr3 rk con by blast
qed

theorem union_then_connected_witness:
  "uf_inv \<lparr>parent = [0, 0, 2], rank = [1, 0, 0]\<rparr> \<and>
   in_range (parent \<lparr>parent = [0, 0, 2], rank = [1, 0, 0]\<rparr>) 1 \<and>
   in_range (parent \<lparr>parent = [0, 0, 2], rank = [1, 0, 0]\<rparr>) 2 \<and>
   unionSets \<lparr>parent = [0, 0, 2], rank = [1, 0, 0]\<rparr> 1 2
     = Some (Inr \<lparr>parent = [0, 0, 0], rank = [1, 0, 0]\<rparr>) \<and>
   connected \<lparr>parent = [0, 0, 0], rank = [1, 0, 0]\<rparr> 1 2
     = Some (Inr (True, \<lparr>parent = [0, 0, 0], rank = [1, 0, 0]\<rparr>)) \<and>
   unionSets \<lparr>parent = [0, 0, 0], rank = [1, 0, 0]\<rparr> 1 2
     = Some (Inr \<lparr>parent = [0, 0, 0], rank = [1, 0, 0]\<rparr>) \<and>
   (\<exists>s1 s2 s3. unionSets \<lparr>parent = [0, 0, 2], rank = [1, 0, 0]\<rparr> 1 2 = Some (Inr s1) \<and>
      connected s1 1 2 = Some (Inr (True, s2)) \<and> unionSets s1 1 2 = Some (Inr s3) \<and>
      rank s3 = rank s1)"
proof -
  have i: "uf_inv \<lparr>parent = [0, 0, 2], rank = [1, 0, 0]\<rparr>" by (rule example3_inv(2))
  have a: "in_range (parent \<lparr>parent = [0, 0, 2], rank = [1, 0, 0]\<rparr>) 1"
    and b: "in_range (parent \<lparr>parent = [0, 0, 2], rank = [1, 0, 0]\<rparr>) 2"
    by (simp_all add: in_range_def)
  have e1: "unionSets \<lparr>parent = [0, 0, 2], rank = [1, 0, 0]\<rparr> 1 2
     = Some (Inr \<lparr>parent = [0, 0, 0], rank = [1, 0, 0]\<rparr>)"
    by (simp add: ev)
  have e2: "connected \<lparr>parent = [0, 0, 0], rank = [1, 0, 0]\<rparr> 1 2
     = Some (Inr (True, \<lparr>parent = [0, 0, 0], rank = [1, 0, 0]\<rparr>))"
    by (simp add: ev)
  have e3: "unionSets \<lparr>parent = [0, 0, 0], rank = [1, 0, 0]\<rparr> 1 2
     = Some (Inr \<lparr>parent = [0, 0, 0], rank = [1, 0, 0]\<rparr>)"
    by (simp add: ev)
  from union_then_connected[OF i a b] have x:
    "\<exists>s1 s2 s3. unionSets \<lparr>parent = [0, 0, 2], rank = [1, 0, 0]\<rparr> 1 2 = Some (Inr s1) \<and>
      connected s1 1 2 = Some (Inr (True, s2)) \<and> unionSets s1 1 2 = Some (Inr s3) \<and>
      rank s3 = rank s1"
    by blast
  show ?thesis using i a b e1 e2 e3 x by (intro conjI)
qed

lemma call_effect_untouched:
  assumes e: "call_effect p c q" and t: "\<not> touches p r c"
  shows "chain q v r \<longleftrightarrow> chain p v r"
proof -
  from e consider (same) "same_sets p q"
    | (link) u w ru rw where "union_args c = Some (u, w)" "chain p u ru" "chain p w rw" "ru \<noteq> rw"
        "linked p ru rw q \<or> linked p rw ru q"
    unfolding call_effect_def by blast
  then show ?thesis
  proof cases
    case same
    then show ?thesis by (simp add: same_sets_chain)
  next
    case link
    have n: "ru \<noteq> r" "rw \<noteq> r" using t link(1,2,3) by (auto simp: touches_def)
    have ru: "is_root p ru" and rw: "is_root p rw" using link(2,3) by (auto intro: chain_is_root)
    from link(5) show ?thesis
    proof
      assume l: "linked p ru rw q"
      show ?thesis unfolding linked_chain[OF l ru rw link(4)] using n by auto
    next
      assume l: "linked p rw ru q"
      show ?thesis unfolding linked_chain[OF l rw ru link(4)[symmetric]] using n by auto
    qed
  qed
qed

lemma run_untouched:
  "uf_inv s \<Longrightarrow> run s cs = Some (Inr s') \<Longrightarrow> \<forall>c\<in>set cs. \<not> touches (parent s) r c \<Longrightarrow>
   uf_inv s' \<and> (\<forall>v. chain (parent s') v r \<longleftrightarrow> chain (parent s) v r)"
proof (induction cs arbitrary: s)
  case Nil
  then show ?case by simp
next
  case (Cons c cs)
  from Cons.prems(2) obtain s1 where d: "do_call s c = Some (Inr s1)" and r: "run s1 cs = Some (Inr s')"
    by (auto split: option.splits sum.splits)
  from do_call_effect[OF Cons.prems(1) d] have i1: "uf_inv s1"
    and e: "call_effect (parent s) c (parent s1)" by simp_all
  have t: "\<not> touches (parent s) r c" using Cons.prems(3) by simp
  have k: "chain (parent s1) v r \<longleftrightarrow> chain (parent s) v r" for v
    using e t by (rule call_effect_untouched)
  have "touches (parent s1) r c' = touches (parent s) r c'" for c'
    by (auto simp: touches_def k split: option.splits)
  then have "\<forall>c\<in>set cs. \<not> touches (parent s1) r c"
    using Cons.prems(3) by simp
  from Cons.IH[OF i1 r this] show ?case using k by simp
qed

text \<open>
  C6. In a state that satisfies the invariant, let \<open>find x\<close> return \<open>r\<close>. The state
  that \<open>find\<close> leaves gives every element the root it had. After any sequence of
  successful calls in which every union has both arguments outside the set of \<open>x\<close>
  (calls of \<open>find\<close> and \<open>connected\<close> are unrestricted), \<open>find x\<close> returns \<open>r\<close>
  again, and the set of \<open>r\<close> has the elements it had.
\<close>

theorem find_stable:
  assumes "uf_inv s" and "find_uf s x = Some (Inr (r, s1))"
    and "run s cs = Some (Inr s')" and "\<forall>c\<in>set cs. \<not> touches (parent s) r c"
  shows "same_sets (parent s) (parent s1) \<and>
         (\<exists>s2. find_uf s' x = Some (Inr (r, s2))) \<and>
         set_of (parent s') r = set_of (parent s) r"
proof -
  from find_effect[OF assms(1,2)] have ss: "same_sets (parent s) (parent s1)"
    and c: "chain (parent s) x r" by simp_all
  from run_untouched[OF assms(1,3,4)] have k: "\<forall>v. chain (parent s') v r \<longleftrightarrow> chain (parent s) v r"
    by simp
  then have "chain (parent s') x r" using c by simp
  from find_uf_chain[OF this] have "\<exists>s2. find_uf s' x = Some (Inr (r, s2))" by blast
  moreover have "set_of (parent s') r = set_of (parent s) r" using k by (simp add: set_of_def)
  ultimately show ?thesis using ss by simp
qed

lemma example5_init: "UnionFind_init 5 = Inr \<lparr>parent = [0, 1, 2, 3, 4], rank = [0, 0, 0, 0, 0]\<rparr>"
  by (simp add: ev)

lemma example5_run:
  "run \<lparr>parent = [0, 1, 2, 3, 4], rank = [0, 0, 0, 0, 0]\<rparr> [UnionSets 0 1, UnionSets 2 3]
     = Some (Inr \<lparr>parent = [0, 0, 2, 2, 4], rank = [1, 0, 1, 0, 0]\<rparr>)"
  by (simp add: ev)

lemma example5_inv: "uf_inv \<lparr>parent = [0, 0, 2, 2, 4], rank = [1, 0, 1, 0, 0]\<rparr>"
proof -
  have "uf_inv \<lparr>parent = [0, 1, 2, 3, 4], rank = [0, 0, 0, 0, 0]\<rparr>"
    using example5_init by (rule uf_inv_init(1)) (simp add: INT_MAX_def)
  then show ?thesis using example5_run by (rule uf_inv_run)
qed

lemma example5_chains:
  "chain [0, 0, 2, 2, 4] 2 2" "chain [0, 0, 2, 2, 4] 3 2" "chain [0, 0, 2, 2, 4] 4 4"
proof -
  show c2: "chain [0, 0, 2, 2, 4] 2 2" by (rule chain_root) (simp_all add: in_range_def at_def)
  show "chain [0, 0, 2, 2, 4] 3 2" by (rule chain_via[where w=2]) (simp_all add: in_range_def at_def c2)
  show "chain [0, 0, 2, 2, 4] 4 4" by (rule chain_root) (simp_all add: in_range_def at_def)
qed

lemma example5_untouched:
  "\<forall>c\<in>set [Find 3, UnionSets 2 4, Connected 3 4, UnionSets3 4 3 False, Find 1].
     \<not> touches (parent \<lparr>parent = [0, 0, 2, 2, 4], rank = [1, 0, 1, 0, 0]\<rparr>) 0 c"
proof -
  have "\<not> chain [0, 0, 2, 2, 4] 2 0" "\<not> chain [0, 0, 2, 2, 4] 3 0" "\<not> chain [0, 0, 2, 2, 4] 4 0"
    using example5_chains chain_unique by fastforce+
  then show ?thesis by (simp add: touches_def)
qed

theorem find_stable_witness:
  "uf_inv \<lparr>parent = [0, 0, 2, 2, 4], rank = [1, 0, 1, 0, 0]\<rparr> \<and>
   find_uf \<lparr>parent = [0, 0, 2, 2, 4], rank = [1, 0, 1, 0, 0]\<rparr> 1
     = Some (Inr (0, \<lparr>parent = [0, 0, 2, 2, 4], rank = [1, 0, 1, 0, 0]\<rparr>)) \<and>
   run \<lparr>parent = [0, 0, 2, 2, 4], rank = [1, 0, 1, 0, 0]\<rparr>
       [Find 3, UnionSets 2 4, Connected 3 4, UnionSets3 4 3 False, Find 1]
     = Some (Inr \<lparr>parent = [0, 0, 2, 2, 2], rank = [1, 0, 1, 0, 0]\<rparr>) \<and>
   \<not> touches [0, 0, 2, 2, 4] 0 (Find 3) \<and>
   \<not> touches [0, 0, 2, 2, 4] 0 (UnionSets 2 4) \<and>
   \<not> touches [0, 0, 2, 2, 4] 0 (Connected 3 4) \<and>
   \<not> touches [0, 0, 2, 2, 4] 0 (UnionSets3 4 3 False) \<and>
   \<not> touches [0, 0, 2, 2, 4] 0 (Find 1) \<and>
   (\<exists>s2. find_uf \<lparr>parent = [0, 0, 2, 2, 2], rank = [1, 0, 1, 0, 0]\<rparr> 1 = Some (Inr (0, s2))) \<and>
   set_of [0, 0, 2, 2, 2] 0 = set_of [0, 0, 2, 2, 4] 0"
proof -
  have i: "uf_inv \<lparr>parent = [0, 0, 2, 2, 4], rank = [1, 0, 1, 0, 0]\<rparr>" by (rule example5_inv)
  have f: "find_uf \<lparr>parent = [0, 0, 2, 2, 4], rank = [1, 0, 1, 0, 0]\<rparr> 1
     = Some (Inr (0, \<lparr>parent = [0, 0, 2, 2, 4], rank = [1, 0, 1, 0, 0]\<rparr>))"
    by (simp add: ev)
  have r: "run \<lparr>parent = [0, 0, 2, 2, 4], rank = [1, 0, 1, 0, 0]\<rparr>
       [Find 3, UnionSets 2 4, Connected 3 4, UnionSets3 4 3 False, Find 1]
     = Some (Inr \<lparr>parent = [0, 0, 2, 2, 2], rank = [1, 0, 1, 0, 0]\<rparr>)"
    by (simp add: ev)
  note t = example5_untouched
  from find_stable[OF i f r t] have
    x: "\<exists>s2. find_uf \<lparr>parent = [0, 0, 2, 2, 2], rank = [1, 0, 1, 0, 0]\<rparr> 1 = Some (Inr (0, s2))" and
    y: "set_of [0, 0, 2, 2, 2] 0 = set_of [0, 0, 2, 2, 4] 0"
    by simp_all
  have u: "\<not> touches [0, 0, 2, 2, 4] 0 (Find 3)"
    "\<not> touches [0, 0, 2, 2, 4] 0 (UnionSets 2 4)"
    "\<not> touches [0, 0, 2, 2, 4] 0 (Connected 3 4)"
    "\<not> touches [0, 0, 2, 2, 4] 0 (UnionSets3 4 3 False)"
    "\<not> touches [0, 0, 2, 2, 4] 0 (Find 1)"
    using t by simp_all
  show ?thesis using i f r u x y by (intro conjI)
qed

lemma call_effect_length: "call_effect p c q \<Longrightarrow> length q = length p"
  by (auto simp: call_effect_def same_sets_def linked_length)

lemma run_length: "uf_inv s \<Longrightarrow> run s cs = Some (Inr s') \<Longrightarrow> length (parent s') = length (parent s)"
proof (induction cs arbitrary: s)
  case Nil
  then show ?case by simp
next
  case (Cons c cs)
  from Cons.prems(2) obtain s1 where d: "do_call s c = Some (Inr s1)" and r: "run s1 cs = Some (Inr s')"
    by (auto split: option.splits sum.splits)
  from do_call_effect[OF Cons.prems(1) d] have i1: "uf_inv s1"
    and e: "call_effect (parent s) c (parent s1)" by simp_all
  from Cons.IH[OF i1 r] call_effect_length[OF e] show ?case by simp
qed

lemma wf_partition:
  assumes w: "wf_parent p"
  shows "(\<Union>r\<in>roots p. set_of p r) = {0..<int (length p)}"
proof
  show "(\<Union>r\<in>roots p. set_of p r) \<subseteq> {0..<int (length p)}" using set_of_subset by blast
next
  show "{0..<int (length p)} \<subseteq> (\<Union>r\<in>roots p. set_of p r)"
  proof
    fix x assume "x \<in> {0..<int (length p)}"
    then have "in_range p x" by (simp add: in_range_def)
    then obtain r where c: "chain p x r" using w wf_parent_chain by blast
    then have "r \<in> roots p" by (simp add: roots_def chain_is_root)
    moreover have "x \<in> set_of p r" using c by (simp add: set_of_def)
    ultimately show "x \<in> (\<Union>r\<in>roots p. set_of p r)" by blast
  qed
qed

lemma visited_trans: "visited p a b \<Longrightarrow> visited p b c \<Longrightarrow> visited p a c"
  by (induction rule: visited.induct) (auto intro: visited.intros)

lemma chain_parent: "chain p v r \<Longrightarrow> at p v \<noteq> v \<Longrightarrow> chain p (at p v) r"
  by (erule chain.cases) auto

lemma compressed_visited_fwd:
  "visited p v w \<Longrightarrow> chain p v rv \<Longrightarrow> compressed p u ru p1 \<Longrightarrow> \<not> visited p u w \<Longrightarrow>
   visited p1 v w"
proof (induction rule: visited.induct)
  case (visited_self p v)
  show ?case by (rule visited.visited_self)
next
  case (visited_step p v w)
  have vw: "visited p v w" using visited_step.hyps(1,2) by (rule visited.visited_step)
  have nv: "\<not> visited p u v" using visited_trans[OF _ vw] visited_step.prems(3) by blast
  have iv: "in_range p v" using visited_step.prems(1) by (rule chain_in_range)
  have a: "at p1 v = at p v" using visited_step.prems(2) iv nv by (simp add: compressed_def)
  have "chain p (at p v) rv" using visited_step.prems(1) visited_step.hyps(1) by (rule chain_parent)
  then have "visited p1 (at p v) w" using visited_step.prems(2,3) by (rule visited_step.IH)
  then have "visited p1 (at p1 v) w" using a by simp
  moreover have "at p1 v \<noteq> v" using a visited_step.hyps(1) by simp
  ultimately show ?case by (rule visited.visited_step[rotated])
qed

lemma compressed_visited_bwd:
  "visited p1 v w \<Longrightarrow> chain p v rv \<Longrightarrow> chain p u ru \<Longrightarrow> compressed p u ru p1 \<Longrightarrow>
   \<not> visited p u w \<Longrightarrow> visited p v w"
proof (induction rule: visited.induct)
  case (visited_self p1 v)
  show ?case by (rule visited.visited_self)
next
  case (visited_step p1 v w)
  have iv: "in_range p v" using visited_step.prems(1) by (rule chain_in_range)
  show ?case
  proof (cases "visited p u v")
    case True
    then have a: "at p1 v = ru" using visited_step.prems(3) iv by (simp add: compressed_def)
    have "is_root p ru" using visited_step.prems(2) by (rule chain_is_root)
    then have "at p1 ru = ru" using compressed_root[OF visited_step.prems(2,3)] by simp
    then have "w = ru" using visited_step.hyps(2) a by (simp add: visited_root)
    moreover have "visited p u ru" using visited_step.prems(2) by (rule chain_visited)
    ultimately show ?thesis using visited_step.prems(4) by simp
  next
    case False
    then have a: "at p1 v = at p v" using visited_step.prems(3) iv by (simp add: compressed_def)
    then have n: "at p v \<noteq> v" using visited_step.hyps(1) by simp
    have "chain p (at p v) rv" using visited_step.prems(1) n by (rule chain_parent)
    then have "chain p (at p1 v) rv" using a by simp
    then have "visited p (at p1 v) w" using visited_step.prems(2,3,4) by (rule visited_step.IH)
    then have "visited p (at p v) w" using a by simp
    with n show ?thesis by (rule visited.visited_step)
  qed
qed

lemma compressed_twice:
  assumes cu: "chain p u ru" and cv: "chain p v rv"
    and k1: "compressed p u ru p1" and k2: "compressed p1 v rv p2" and w: "in_range p w"
  shows "at p2 w = (if visited p u w then ru else if visited p v w then rv else at p w)"
proof -
  have s1: "same_sets p p1" using cu k1 by (rule compressed_same_sets)
  have cv1: "chain p1 v rv" using cv s1 by (simp add: same_sets_chain)
  have w1: "in_range p1 w" using w k1 by (simp add: compressed_in_range)
  have a2: "at p2 w = (if visited p1 v w then rv else at p1 w)" using k2 w1 by (simp add: compressed_def)
  have a1: "at p1 w = (if visited p u w then ru else at p w)" using k1 w by (simp add: compressed_def)
  show ?thesis
  proof (cases "visited p u w")
    case True
    have "rv = ru" if "visited p1 v w"
    proof -
      have "chain p1 w rv" using that cv1 by (rule visited_chain)
      then have "chain p w rv" using s1 by (simp add: same_sets_chain)
      moreover have "chain p w ru" using True cu by (rule visited_chain)
      ultimately show ?thesis by (rule chain_unique[rotated])
    qed
    then show ?thesis using a1 a2 True by auto
  next
    case False
    have "visited p1 v w \<longleftrightarrow> visited p v w"
      using compressed_visited_fwd[OF _ cv k1 False] compressed_visited_bwd[OF _ cv cu k1 False]
      by blast
    then show ?thesis using a1 a2 False by simp
  qed
qed

lemma connected_order:
  assumes cu: "chain (parent s) u ru" and cv: "chain (parent s) v rv"
  shows "connected_rl s u v = connected s u v"
proof -
  from find_uf_twice[OF cu cv] obtain p1 p2 where
    f1: "find_uf s u = Some (Inr (ru, s\<lparr>parent := p1\<rparr>))" and
    f2: "find_uf (s\<lparr>parent := p1\<rparr>) v = Some (Inr (rv, s\<lparr>parent := p2\<rparr>))" and
    k1: "compressed (parent s) u ru p1" and k2: "compressed p1 v rv p2" by blast
  from find_uf_twice[OF cv cu] obtain q1 q2 where
    g1: "find_uf s v = Some (Inr (rv, s\<lparr>parent := q1\<rparr>))" and
    g2: "find_uf (s\<lparr>parent := q1\<rparr>) u = Some (Inr (ru, s\<lparr>parent := q2\<rparr>))" and
    j1: "compressed (parent s) v rv q1" and j2: "compressed q1 u ru q2" by blast
  have "p2 = q2"
  proof (rule list_eq_atI)
    show "length p2 = length q2" using k1 k2 j1 j2 by (simp add: compressed_def)
  next
    fix w assume "in_range p2 w"
    then have w: "in_range (parent s) w" using k1 k2 by (simp add: compressed_in_range)
    have "ru = rv" if "visited (parent s) u w" "visited (parent s) v w"
      using visited_chain[OF that(2) cv] visited_chain[OF that(1) cu] by (rule chain_unique)
    then show "at p2 w = at q2 w"
      unfolding compressed_twice[OF cu cv k1 k2 w] compressed_twice[OF cv cu j1 j2 w] by auto
  qed
  then show ?thesis by (simp add: connected_def connected_rl_def f1 f2 g1 g2)
qed

lemma connected_rl_fault:
  "connected_rl s x y = Some (Inl f) \<longleftrightarrow> connected s y x = Some (Inl f)"
  by (auto simp: connected_rl_def connected_def split: option.splits sum.splits)

section \<open>Depth of recursion\<close>


lemma depth_chain: "depth p u d \<Longrightarrow> \<exists>r. chain p u r"
proof (induction rule: depth.induct)
  case (depth_root p u)
  then show ?case using chain_root by blast
next
  case (depth_step p u d)
  then show ?case using chain_step by blast
qed

lemma chain_depth: "chain p u r \<Longrightarrow> \<exists>d. depth p u d"
proof (induction rule: chain.induct)
  case (chain_root p u)
  then show ?case using depth_root by blast
next
  case (chain_step p u r)
  then show ?case using depth_step by blast
qed

lemma depth_pos: "depth p u d \<Longrightarrow> 1 \<le> d"
  by (induction rule: depth.induct) simp_all

lemma depth_in_range: "depth p u d \<Longrightarrow> in_range p u"
  by (induction rule: depth.induct) simp_all

lemma depth_unique: "depth p u d \<Longrightarrow> depth p u d' \<Longrightarrow> d' = d"
proof (induction arbitrary: d' rule: depth.induct)
  case (depth_root p u)
  from depth_root.prems depth_root.hyps show ?case
    by (cases rule: depth.cases) auto
next
  case (depth_step p u d)
  from depth_step.prems depth_step.hyps show ?case
    by (cases rule: depth.cases) (auto dest: depth_step.IH)
qed

lemma find_frames_oob: "\<not> in_range (parent s) u \<Longrightarrow> find_frames (Suc k) s u = Inl (OutOfBounds, s)"
  by simp

lemma find_frames_depth:
  "depth (parent s) u d \<Longrightarrow> find_uf s u = Some (Inr y) \<Longrightarrow>
   find_frames k s u = (if k < d then Inl (StackOverflow, s) else Inr y)"
proof (induction "parent s" u d arbitrary: k y rule: depth.induct)
  case (depth_root u)
  have y: "y = (at (parent s) u, s)"
    using depth_root.prems depth_root.hyps by (subst (asm) find_uf.simps) simp
  show ?case
  proof (cases k)
    case 0
    then show ?thesis by simp
  next
    case (Suc k')
    then show ?thesis using depth_root.hyps y by simp
  qed
next
  case (depth_step u d)
  from depth_step.prems depth_step.hyps(1,2) obtain r1 s1 where
    f: "find_uf s (at (parent s) u) = Some (Inr (r1, s1))" and
    y: "y = (at (upd (parent s1) u r1) u, s1\<lparr>parent := upd (parent s1) u r1\<rparr>)"
    by (subst (asm) find_uf.simps) (auto simp: Let_def split: Option.bind_splits sum.splits)
  note ih = depth_step.hyps(4)[OF f]
  show ?case
  proof (cases k)
    case 0
    then show ?thesis by simp
  next
    case (Suc k')
    show ?thesis
      unfolding Suc using depth_step.hyps(1,2) ih[of k'] y by (simp add: Let_def)
  qed
qed

lemma depth_compressed:
  "depth p v d \<Longrightarrow> chain p u r \<Longrightarrow> compressed p u r p1 \<Longrightarrow> \<exists>d'. d' \<le> d \<and> depth p1 v d'"
proof (induction rule: depth.induct)
  case (depth_root p v)
  have "is_root p v" using depth_root.hyps by (simp add: is_root_def)
  then have "at p1 v = v" using compressed_root[OF depth_root.prems] by simp
  moreover have "in_range p1 v" using depth_root.hyps(1) depth_root.prems(2) by (simp add: compressed_in_range)
  ultimately have "depth p1 v 1" by (rule depth.depth_root[rotated])
  then show ?case by blast
next
  case (depth_step p v d)
  have iv: "in_range p1 v" using depth_step.hyps(1) depth_step.prems(2) by (simp add: compressed_in_range)
  obtain d0 where d0: "d0 \<le> d" "depth p1 (at p v) d0" using depth_step by blast
  show ?case
  proof (cases "visited p u v")
    case True
    have a: "at p1 v = r" using depth_step.prems(2) depth_step.hyps(1) True by (simp add: compressed_def)
    have rr: "is_root p r" using depth_step.prems(1) by (rule chain_is_root)
    then have r1: "at p1 r = r" using compressed_root[OF depth_step.prems] by simp
    have ir: "in_range p1 r" using rr depth_step.prems(2) by (simp add: compressed_in_range is_root_def)
    have "depth p1 r 1" using ir r1 by (rule depth.depth_root)
    then have dr: "depth p1 (at p1 v) 1" using a by simp
    have "r \<noteq> v" using rr depth_step.hyps(2) by (auto simp: is_root_def)
    then have "at p1 v \<noteq> v" using a by simp
    with iv have "depth p1 v (Suc 1)" using dr by (rule depth.depth_step)
    moreover have "1 \<le> d" using depth_step.hyps(3) by (rule depth_pos)
    ultimately show ?thesis by (intro exI[of _ "Suc 1"]) simp
  next
    case False
    then have a: "at p1 v = at p v" using depth_step.prems(2) depth_step.hyps(1) by (simp add: compressed_def)
    have n: "at p1 v \<noteq> v" using a depth_step.hyps(2) by simp
    have "depth p1 (at p1 v) d0" using d0(2) a by simp
    with iv n have "depth p1 v (Suc d0)" by (rule depth.depth_step)
    then show ?thesis using d0(1) by (intro exI[of _ "Suc d0"]) simp
  qed
qed


lemma visited_depth_le:
  "visited p a b \<Longrightarrow> depth p a d \<Longrightarrow> \<exists>d'. d' \<le> d \<and> depth p b d'"
proof (induction arbitrary: d rule: visited.induct)
  case (visited_self p u)
  then show ?case by blast
next
  case (visited_step p u w)
  from visited_step.prems visited_step.hyps(1) obtain d0 where
    d: "d = Suc d0" and d0: "depth p (at p u) d0"
    by (cases rule: depth.cases) auto
  from visited_step.IH[OF d0] obtain d' where "d' \<le> d0" "depth p w d'" by blast
  then show ?case using d by (intro exI[of _ d']) simp
qed

lemma depth_card: "depth p u d \<Longrightarrow> finite {w. visited p u w} \<and> card {w. visited p u w} = d"
proof (induction rule: depth.induct)
  case (depth_root p u)
  have "{w. visited p u w} = {u}" using depth_root.hyps(2) by (auto simp: visited_root)
  then show ?case by simp
next
  case (depth_step p u d)
  have e: "{w. visited p u w} = insert u {w. visited p (at p u) w}"
    using depth_step.hyps(2) by (auto simp: visited_nonroot)
  have n: "u \<notin> {w. visited p (at p u) w}"
  proof
    assume "u \<in> {w. visited p (at p u) w}"
    then have "visited p (at p u) u" by simp
    from visited_depth_le[OF this depth_step.hyps(3)] obtain d' where
      le: "d' \<le> d" and dd: "depth p u d'" by blast
    have "depth p u (Suc d)" using depth_step.hyps(1,2,3) by (rule depth.depth_step)
    with dd have "Suc d = d'" by (rule depth_unique)
    then show False using le by simp
  qed
  show ?case using depth_step.IH n by (simp add: e)
qed

lemma depth_le_length: "depth p u d \<Longrightarrow> d \<le> length p"
proof -
  assume d: "depth p u d"
  then obtain r where c: "chain p u r" using depth_chain by blast
  have "{w. visited p u w} \<subseteq> {0..<int (length p)}"
    using visited_chain[OF _ c] chain_in_range by (fastforce simp: in_range_def)
  then have "card {w. visited p u w} \<le> card {0..<int (length p)}" by (intro card_mono) simp_all
  then show ?thesis using depth_card[OF d] by simp
qed

lemma find_frames_twice:
  assumes du: "depth (parent s) u du" and dv: "depth (parent s) v dv"
  shows "\<exists>ru rv p1 p2 dv'. dv' \<le> dv \<and> 1 \<le> dv' \<and>
           chain (parent s) u ru \<and> chain (parent s) v rv \<and>
           compressed (parent s) u ru p1 \<and> same_sets (parent s) p2 \<and>
           find_uf s u = Some (Inr (ru, s\<lparr>parent := p1\<rparr>)) \<and>
           find_uf (s\<lparr>parent := p1\<rparr>) v = Some (Inr (rv, s\<lparr>parent := p2\<rparr>)) \<and>
           (\<forall>k. find_frames k s u =
                  (if k < du then Inl (StackOverflow, s) else Inr (ru, s\<lparr>parent := p1\<rparr>))) \<and>
           (\<forall>k. find_frames k (s\<lparr>parent := p1\<rparr>) v =
                  (if k < dv' then Inl (StackOverflow, s\<lparr>parent := p1\<rparr>)
                   else Inr (rv, s\<lparr>parent := p2\<rparr>)))"
proof -
  obtain ru rv where cu: "chain (parent s) u ru" and cv: "chain (parent s) v rv"
    using du dv depth_chain by blast
  from find_uf_twice[OF cu cv] obtain p1 p2 where
    f1: "find_uf s u = Some (Inr (ru, s\<lparr>parent := p1\<rparr>))" and
    f2: "find_uf (s\<lparr>parent := p1\<rparr>) v = Some (Inr (rv, s\<lparr>parent := p2\<rparr>))" and
    k1: "compressed (parent s) u ru p1" and ss: "same_sets (parent s) p2" by blast
  from depth_compressed[OF dv cu k1] obtain dv' where
    le: "dv' \<le> dv" and d1: "depth p1 v dv'" by blast
  have d1': "depth (parent (s\<lparr>parent := p1\<rparr>)) v dv'" using d1 by simp
  have a: "\<forall>k. find_frames k s u =
                  (if k < du then Inl (StackOverflow, s) else Inr (ru, s\<lparr>parent := p1\<rparr>))"
    using find_frames_depth[OF du f1] by blast
  have b: "\<forall>k. find_frames k (s\<lparr>parent := p1\<rparr>) v =
                  (if k < dv' then Inl (StackOverflow, s\<lparr>parent := p1\<rparr>)
                   else Inr (rv, s\<lparr>parent := p2\<rparr>))"
    using find_frames_depth[OF d1' f2] by blast
  have "1 \<le> dv'" using d1 by (rule depth_pos)
  then show ?thesis using le cu cv k1 ss f1 f2 a b by blast
qed

lemma frames_agree:
  assumes "find_uf s u = Some (Inr (ru, s1))" and "find_frames k s u = Inr (ru, s1)"
    and "find_uf s1 v = Some (Inr (rv, s2))" and "find_frames k s1 v = Inr (rv, s2)"
  shows "Some (unionSets_frames k s u v) = unionSets s u v"
    and "Some (unionSets3_frames k s u v b) = unionSets3 s u v b"
    and "Some (unionBySize_frames k s u v sz) = unionBySize s u v sz"
    and "Some (connected_frames k s u v) = connected s u v"
  using assms
  by (simp_all add: unionSets_frames_def unionSets_def unionSets3_frames_def unionSets3_def
      unionBySize_frames_def unionBySize_def connected_frames_def connected_def Let_def)

lemma frames_fail_first:
  assumes "find_frames k s u = Inl (e, t)"
  shows "unionSets_frames k s u v = Inl (e, t)"
    and "unionSets3_frames k s u v b = Inl (e, t)"
    and "unionBySize_frames k s u v sz = Inl (e, (t, sz))"
    and "connected_frames k s u v = Inl (e, t)"
  using assms
  by (simp_all add: unionSets_frames_def unionSets3_frames_def unionBySize_frames_def
      connected_frames_def)

lemma frames_fail_second:
  assumes "find_frames k s u = Inr (ru, s1)" and "find_frames k s1 v = Inl (e, t)"
  shows "unionSets_frames k s u v = Inl (e, t)"
    and "unionSets3_frames k s u v b = Inl (e, t)"
    and "unionBySize_frames k s u v sz = Inl (e, (t, sz))"
    and "connected_frames k s u v = Inl (e, t)"
  using assms
  by (simp_all add: unionSets_frames_def unionSets3_frames_def unionBySize_frames_def
      connected_frames_def)

lemma run_append:
  "run s (xs @ ys) =
     (case run s xs of None \<Rightarrow> None | Some (Inl f) \<Rightarrow> Some (Inl f) | Some (Inr s1) \<Rightarrow> run s1 ys)"
  by (induction xs arbitrary: s) (auto split: option.splits sum.splits)

lemma length_ladder: "length (ladder n k) = n"
  by (simp add: ladder_def)

lemma in_range_ladder: "in_range (ladder n k) (int i) \<longleftrightarrow> i < n"
  by (simp add: in_range_def ladder_def)

lemma at_ladder: "i < n \<Longrightarrow> at (ladder n k) (int i) = (if i < k then int i + 1 else int i)"
  by (simp add: at_def ladder_def)

lemma upd_ladder: "k < n \<Longrightarrow> upd (ladder n k) (int k) (int k + 1) = ladder n (Suc k)"
  by (rule nth_equalityI) (auto simp: upd_def ladder_def nth_list_update)

lemma ladder_step:
  assumes "Suc k < n"
  shows "do_call \<lparr>parent = ladder n k, rank = rk\<rparr> (UnionSets3 (int k + 1) (int k) False)
           = Some (Inr \<lparr>parent = ladder n (Suc k), rank = rk\<rparr>)"
proof -
  let ?s = "\<lparr>parent = ladder n k, rank = rk\<rparr>"
  have a: "at (ladder n k) (int (Suc k)) = int (Suc k)" "in_range (ladder n k) (int (Suc k))"
    using assms at_ladder[of "Suc k" n k] in_range_ladder[of n k "Suc k"] by simp_all
  have b: "at (ladder n k) (int k) = int k" "in_range (ladder n k) (int k)"
    using assms by (simp_all add: at_ladder in_range_ladder)
  have e: "int k + 1 = int (Suc k)" by simp
  have f1: "find_uf ?s (int k + 1) = Some (Inr (int k + 1, ?s))"
    unfolding e using a by (subst find_uf.simps) simp
  have f2: "find_uf ?s (int k) = Some (Inr (int k, ?s))"
    using b by (subst find_uf.simps) simp
  have "unionSets3 ?s (int k + 1) (int k) False
          = Some (Inr (?s\<lparr>parent := upd (ladder n k) (int k) (int k + 1)\<rparr>))"
    by (simp add: unionSets3_def f1 f2)
  then show ?thesis using assms by (simp add: do_call_def upd_ladder)
qed

lemma ladder_run:
  "k < n \<Longrightarrow>
   run \<lparr>parent = ladder n 0, rank = rk\<rparr> (map (\<lambda>k. UnionSets3 (int k + 1) (int k) False) [0..<k])
     = Some (Inr \<lparr>parent = ladder n k, rank = rk\<rparr>)"
proof (induction k)
  case 0
  then show ?case by simp
next
  case (Suc k)
  then have "run \<lparr>parent = ladder n 0, rank = rk\<rparr>
               (map (\<lambda>k. UnionSets3 (int k + 1) (int k) False) [0..<k])
             = Some (Inr \<lparr>parent = ladder n k, rank = rk\<rparr>)" by simp
  then show ?case using ladder_step[OF Suc.prems, of rk] by (simp add: run_append)
qed

lemma ladder_depth: "j < n \<Longrightarrow> depth (ladder n (n - 1)) (int (n - 1 - j)) (Suc j)"
proof (induction j)
  case 0
  have "in_range (ladder n (n - 1)) (int (n - 1))"
    using 0 in_range_ladder[of n "n - 1" "n - 1"] by simp
  moreover have "at (ladder n (n - 1)) (int (n - 1)) = int (n - 1)"
    using 0 at_ladder[of "n - 1" n "n - 1"] by simp
  ultimately have "depth (ladder n (n - 1)) (int (n - 1)) 1" by (rule depth_root)
  then show ?case by simp
next
  case (Suc j)
  let ?i = "n - 1 - Suc j"
  have i: "?i < n - 1" "?i < n" "Suc ?i = n - 1 - j" using Suc.prems by simp_all
  have r: "in_range (ladder n (n - 1)) (int ?i)" using i in_range_ladder[of n "n - 1" ?i] by simp
  have a: "at (ladder n (n - 1)) (int ?i) = int (n - 1 - j)"
    using i at_ladder[of ?i n "n - 1"] by simp
  have n: "at (ladder n (n - 1)) (int ?i) \<noteq> int ?i" using a i by simp
  have "depth (ladder n (n - 1)) (int (n - 1 - j)) (Suc j)" using Suc by simp
  then have "depth (ladder n (n - 1)) (at (ladder n (n - 1)) (int ?i)) (Suc j)" using a by simp
  with r n show ?case by (rule depth_step)
qed

lemma init_ladder:
  "UnionFind_init (int n) = Inr \<lparr>parent = ladder n 0, rank = replicate n 0\<rparr>"
proof -
  have "init_loop 0 (int n) (replicate n 0) = ladder n 0"
  proof (rule list_eq_atI)
    show "length (init_loop 0 (int n) (replicate n 0)) = length (ladder n 0)"
      by (simp add: length_init_loop length_ladder)
  next
    fix i assume i: "in_range (init_loop 0 (int n) (replicate n 0)) i"
    then have r: "0 \<le> i" "i < int n" by (simp_all add: in_range_def length_init_loop)
    have "at (init_loop 0 (int n) (replicate n 0)) i = i"
      using init_parent(2)[of "int n"] i by (simp add: identity_parent_def)
    moreover have "at (ladder n 0) i = i"
      using at_ladder[of "nat i" n 0] r by simp
    ultimately show "at (init_loop 0 (int n) (replicate n 0)) i = at (ladder n 0) i" by simp
  qed
  then show ?thesis by (simp add: UnionFind_init_def)
qed

lemma deep_chain:
  assumes "1 \<le> n"
  shows "UnionFind_init (int n) = Inr \<lparr>parent = ladder n 0, rank = replicate n 0\<rparr>"
    and "run \<lparr>parent = ladder n 0, rank = replicate n 0\<rparr> (deep_calls n)
           = Some (Inr \<lparr>parent = ladder n (n - 1), rank = replicate n 0\<rparr>)"
    and "depth (ladder n (n - 1)) 0 n"
proof -
  show "UnionFind_init (int n) = Inr \<lparr>parent = ladder n 0, rank = replicate n 0\<rparr>"
    by (rule init_ladder)
  show "run \<lparr>parent = ladder n 0, rank = replicate n 0\<rparr> (deep_calls n)
           = Some (Inr \<lparr>parent = ladder n (n - 1), rank = replicate n 0\<rparr>)"
    unfolding deep_calls_def using assms by (intro ladder_run) simp
  show "depth (ladder n (n - 1)) 0 n"
    using ladder_depth[of "n - 1" n] assms by simp
qed

section \<open>The operations on a bounded stack\<close>

lemma frames_agree_rl:
  assumes "find_uf s v = Some (Inr (rv, s1))" and "find_frames k s v = Inr (rv, s1)"
    and "find_uf s1 u = Some (Inr (ru, s2))" and "find_frames k s1 u = Inr (ru, s2)"
  shows "Some (connected_rl_frames k s u v) = connected_rl s u v"
  using assms by (simp add: connected_rl_frames_def connected_rl_def)

lemma frames_overflow:
  assumes d: "depth (parent s) u d" and k: "k < d"
  shows "find_frames k s u = Inl (StackOverflow, s)"
    and "unionSets_frames k s u v = Inl (StackOverflow, s)"
    and "unionSets3_frames k s u v b = Inl (StackOverflow, s)"
    and "unionBySize_frames k s u v sz = Inl (StackOverflow, (s, sz))"
    and "connected_frames k s u v = Inl (StackOverflow, s)"
    and "connected_rl_frames k s v u = Inl (StackOverflow, s)"
proof -
  obtain r where c: "chain (parent s) u r" using d depth_chain by blast
  from find_uf_chain[OF c] obtain y where "find_uf s u = Some (Inr y)" by blast
  from find_frames_depth[OF d this, of k] k
  show f: "find_frames k s u = Inl (StackOverflow, s)" by simp
  show "unionSets_frames k s u v = Inl (StackOverflow, s)"
    and "unionSets3_frames k s u v b = Inl (StackOverflow, s)"
    and "unionBySize_frames k s u v sz = Inl (StackOverflow, (s, sz))"
    and "connected_frames k s u v = Inl (StackOverflow, s)"
    using f by (rule frames_fail_first)+
  show "connected_rl_frames k s v u = Inl (StackOverflow, s)"
    using f by (simp add: connected_rl_frames_def)
qed

lemma frames_enough:
  assumes du: "depth (parent s) u du" and dv: "depth (parent s) v dv"
    and ku: "du \<le> k" and kv: "dv \<le> k"
  shows "\<exists>r t. find_frames k s u = Inr (r, t) \<and> find_uf s u = Some (Inr (r, t)) \<and>
           chain (parent s) u r"
    and "Some (unionSets_frames k s u v) = unionSets s u v"
    and "Some (unionSets3_frames k s u v b) = unionSets3 s u v b"
    and "Some (unionBySize_frames k s u v sz) = unionBySize s u v sz"
    and "Some (connected_frames k s u v) = connected s u v"
    and "Some (connected_rl_frames k s v u) = connected_rl s v u"
proof -
  from find_frames_twice[OF du dv] obtain ru rv p1 p2 dv' where
    le: "dv' \<le> dv" and cu: "chain (parent s) u ru" and
    f1: "find_uf s u = Some (Inr (ru, s\<lparr>parent := p1\<rparr>))" and
    f2: "find_uf (s\<lparr>parent := p1\<rparr>) v = Some (Inr (rv, s\<lparr>parent := p2\<rparr>))" and
    a: "\<forall>k. find_frames k s u =
                  (if k < du then Inl (StackOverflow, s) else Inr (ru, s\<lparr>parent := p1\<rparr>))" and
    b: "\<forall>k. find_frames k (s\<lparr>parent := p1\<rparr>) v =
                  (if k < dv' then Inl (StackOverflow, s\<lparr>parent := p1\<rparr>)
                   else Inr (rv, s\<lparr>parent := p2\<rparr>))"
    by blast
  have g1: "find_frames k s u = Inr (ru, s\<lparr>parent := p1\<rparr>)" using a ku by simp
  have g2: "find_frames k (s\<lparr>parent := p1\<rparr>) v = Inr (rv, s\<lparr>parent := p2\<rparr>)"
    using b kv le by simp
  show "\<exists>r t. find_frames k s u = Inr (r, t) \<and> find_uf s u = Some (Inr (r, t)) \<and>
           chain (parent s) u r"
    using g1 f1 cu by blast
  show "Some (unionSets_frames k s u v) = unionSets s u v"
    and "Some (unionSets3_frames k s u v b) = unionSets3 s u v b"
    and "Some (unionBySize_frames k s u v sz) = unionBySize s u v sz"
    and "Some (connected_frames k s u v) = connected s u v"
    using f1 g1 f2 g2 by (rule frames_agree)+
  show "Some (connected_rl_frames k s v u) = connected_rl s v u"
    using f1 g1 f2 g2 by (rule frames_agree_rl)
qed

text \<open>With both elements on chains, a stack that is too short is the only difference
  to the unbounded stack.\<close>

lemma frames_or_overflow:
  assumes du: "depth (parent s) u du" and dv: "depth (parent s) v dv"
  shows "(\<exists>t. unionSets_frames k s u v = Inl (StackOverflow, t)) \<and>
         (\<exists>t. unionSets3_frames k s u v b = Inl (StackOverflow, t)) \<and>
         (\<exists>t. unionBySize_frames k s u v sz = Inl (StackOverflow, (t, sz))) \<and>
         (\<exists>t. connected_frames k s u v = Inl (StackOverflow, t)) \<and>
         (\<exists>t. connected_rl_frames k s v u = Inl (StackOverflow, t)) \<and>
         (k < du \<or> k < dv)
         \<or>
         Some (unionSets_frames k s u v) = unionSets s u v \<and>
         Some (unionSets3_frames k s u v b) = unionSets3 s u v b \<and>
         Some (unionBySize_frames k s u v sz) = unionBySize s u v sz \<and>
         Some (connected_frames k s u v) = connected s u v \<and>
         Some (connected_rl_frames k s v u) = connected_rl s v u"
proof -
  from find_frames_twice[OF du dv] obtain ru rv p1 p2 dv' where
    le: "dv' \<le> dv" and
    f1: "find_uf s u = Some (Inr (ru, s\<lparr>parent := p1\<rparr>))" and
    f2: "find_uf (s\<lparr>parent := p1\<rparr>) v = Some (Inr (rv, s\<lparr>parent := p2\<rparr>))" and
    a: "\<forall>k. find_frames k s u =
                  (if k < du then Inl (StackOverflow, s) else Inr (ru, s\<lparr>parent := p1\<rparr>))" and
    b: "\<forall>k. find_frames k (s\<lparr>parent := p1\<rparr>) v =
                  (if k < dv' then Inl (StackOverflow, s\<lparr>parent := p1\<rparr>)
                   else Inr (rv, s\<lparr>parent := p2\<rparr>))"
    by blast
  consider (one) "k < du" | (two) "du \<le> k" "k < dv'" | (three) "du \<le> k" "dv' \<le> k"
    by linarith
  then show ?thesis
  proof cases
    case one
    from frames_overflow[OF du one] one show ?thesis by blast
  next
    case two
    have g1: "find_frames k s u = Inr (ru, s\<lparr>parent := p1\<rparr>)" using a two(1) by simp
    have g2: "find_frames k (s\<lparr>parent := p1\<rparr>) v = Inl (StackOverflow, s\<lparr>parent := p1\<rparr>)"
      using b two(2) by simp
    have "connected_rl_frames k s v u = Inl (StackOverflow, s\<lparr>parent := p1\<rparr>)"
      using g1 g2 by (simp add: connected_rl_frames_def)
    moreover have "k < dv" using two(2) le by simp
    ultimately show ?thesis using frames_fail_second[OF g1 g2] by blast
  next
    case three
    have g1: "find_frames k s u = Inr (ru, s\<lparr>parent := p1\<rparr>)" using a three(1) by simp
    have g2: "find_frames k (s\<lparr>parent := p1\<rparr>) v = Inr (rv, s\<lparr>parent := p2\<rparr>)"
      using b three(2) by simp
    show ?thesis using frames_agree[OF f1 g1 f2 g2] frames_agree_rl[OF f1 g1 f2 g2] by blast
  qed
qed

lemma frames_oob_first:
  assumes "\<not> in_range (parent s) u"
  shows "find_frames (Suc k) s u = Inl (OutOfBounds, s)"
    and "unionSets_frames (Suc k) s u v = Inl (OutOfBounds, s)"
    and "unionSets3_frames (Suc k) s u v b = Inl (OutOfBounds, s)"
    and "unionBySize_frames (Suc k) s u v sz = Inl (OutOfBounds, (s, sz))"
    and "connected_frames (Suc k) s u v = Inl (OutOfBounds, s)"
    and "connected_rl_frames (Suc k) s v u = Inl (OutOfBounds, s)"
proof -
  show f: "find_frames (Suc k) s u = Inl (OutOfBounds, s)" using assms by simp
  show "unionSets_frames (Suc k) s u v = Inl (OutOfBounds, s)"
    and "unionSets3_frames (Suc k) s u v b = Inl (OutOfBounds, s)"
    and "unionBySize_frames (Suc k) s u v sz = Inl (OutOfBounds, (s, sz))"
    and "connected_frames (Suc k) s u v = Inl (OutOfBounds, s)"
    using f by (rule frames_fail_first)+
  show "connected_rl_frames (Suc k) s v u = Inl (OutOfBounds, s)"
    using f by (simp add: connected_rl_frames_def)
qed

lemma frames_oob_second:
  assumes d: "depth (parent s) u d" and k: "d \<le> k" and v: "\<not> in_range (parent s) v"
  shows "\<exists>ru p1. chain (parent s) u ru \<and> compressed (parent s) u ru p1 \<and>
           find_frames k s u = Inr (ru, s\<lparr>parent := p1\<rparr>) \<and>
           unionSets_frames k s u v = Inl (OutOfBounds, s\<lparr>parent := p1\<rparr>) \<and>
           unionSets3_frames k s u v b = Inl (OutOfBounds, s\<lparr>parent := p1\<rparr>) \<and>
           unionBySize_frames k s u v sz = Inl (OutOfBounds, (s\<lparr>parent := p1\<rparr>, sz)) \<and>
           connected_frames k s u v = Inl (OutOfBounds, s\<lparr>parent := p1\<rparr>) \<and>
           connected_rl_frames k s v u = Inl (OutOfBounds, s\<lparr>parent := p1\<rparr>)"
proof -
  obtain ru where c: "chain (parent s) u ru" using d depth_chain by blast
  from find_uf_chain[OF c] obtain p1 where
    f: "find_uf s u = Some (Inr (ru, s\<lparr>parent := p1\<rparr>))" and
    k1: "compressed (parent s) u ru p1" by blast
  have g1: "find_frames k s u = Inr (ru, s\<lparr>parent := p1\<rparr>)"
    using find_frames_depth[OF d f, of k] k by simp
  have "1 \<le> d" using d by (rule depth_pos)
  then obtain k' where k': "k = Suc k'" using k by (cases k) simp_all
  have "\<not> in_range (parent (s\<lparr>parent := p1\<rparr>)) v" using v k1 by (simp add: compressed_in_range)
  then have g2: "find_frames k (s\<lparr>parent := p1\<rparr>) v = Inl (OutOfBounds, s\<lparr>parent := p1\<rparr>)"
    unfolding k' by (rule frames_oob_first(1))
  have "connected_rl_frames k s v u = Inl (OutOfBounds, s\<lparr>parent := p1\<rparr>)"
    using g1 g2 by (simp add: connected_rl_frames_def)
  then show ?thesis using c k1 g1 frames_fail_second[OF g1 g2] by blast
qed

section \<open>Reachable states and deep chains\<close>

lemma deep_find_overflow:
  assumes "1 \<le> n" and "k < n"
  shows "find_frames k \<lparr>parent = ladder n (n - 1), rank = replicate n 0\<rparr> 0
           = Inl (StackOverflow, \<lparr>parent = ladder n (n - 1), rank = replicate n 0\<rparr>)"
proof -
  have "depth (parent \<lparr>parent = ladder n (n - 1), rank = replicate n 0\<rparr>) 0 n"
    using deep_chain(3)[OF assms(1)] by simp
  then show ?thesis using assms(2) by (rule frames_overflow(1))
qed

text \<open>
  C4 as stated fails in its last part. The calls \<^verbatim>\<open>unionSets(k + 1, k, false)\<close> for
  \<open>k = 0, \<dots>, n - 2\<close> call \<^verbatim>\<open>find\<close> on roots only and leave \<open>parent[k] = k + 1\<close>:
  a chain of \<open>n\<close> nodes. \<^verbatim>\<open>find(0)\<close> then needs a stack frame for each of them before
  the root answers. On four elements a stack with room for three frames of \<^verbatim>\<open>find\<close>
  overflows, and one with room for four returns; on a million elements a stack with room
  for 999999 frames overflows.
\<close>

theorem find_deep_chain_counterexample:
  "UnionFind_init 4 = Inr \<lparr>parent = [0, 1, 2, 3], rank = [0, 0, 0, 0]\<rparr> \<and>
   run \<lparr>parent = [0, 1, 2, 3], rank = [0, 0, 0, 0]\<rparr>
       [UnionSets3 1 0 False, UnionSets3 2 1 False, UnionSets3 3 2 False]
     = Some (Inr \<lparr>parent = [1, 2, 3, 3], rank = [0, 0, 0, 0]\<rparr>) \<and>
   find_frames 3 \<lparr>parent = [1, 2, 3, 3], rank = [0, 0, 0, 0]\<rparr> 0
     = Inl (StackOverflow, \<lparr>parent = [1, 2, 3, 3], rank = [0, 0, 0, 0]\<rparr>) \<and>
   find_frames 4 \<lparr>parent = [1, 2, 3, 3], rank = [0, 0, 0, 0]\<rparr> 0
     = Inr (3, \<lparr>parent = [3, 3, 3, 3], rank = [0, 0, 0, 0]\<rparr>) \<and>
   UnionFind_init 1000000 = Inr \<lparr>parent = ladder 1000000 0, rank = replicate 1000000 0\<rparr> \<and>
   run \<lparr>parent = ladder 1000000 0, rank = replicate 1000000 0\<rparr> (deep_calls 1000000)
     = Some (Inr \<lparr>parent = ladder 1000000 999999, rank = replicate 1000000 0\<rparr>) \<and>
   find_frames 999999 \<lparr>parent = ladder 1000000 999999, rank = replicate 1000000 0\<rparr> 0
     = Inl (StackOverflow, \<lparr>parent = ladder 1000000 999999, rank = replicate 1000000 0\<rparr>)"
proof -
  have a: "UnionFind_init 4 = Inr \<lparr>parent = [0, 1, 2, 3], rank = [0, 0, 0, 0]\<rparr>"
    by (rule example_init)
  have b: "run \<lparr>parent = [0, 1, 2, 3], rank = [0, 0, 0, 0]\<rparr>
       [UnionSets3 1 0 False, UnionSets3 2 1 False, UnionSets3 3 2 False]
     = Some (Inr \<lparr>parent = [1, 2, 3, 3], rank = [0, 0, 0, 0]\<rparr>)"
    by (simp add: ev)
  have c: "find_frames 3 \<lparr>parent = [1, 2, 3, 3], rank = [0, 0, 0, 0]\<rparr> 0
     = Inl (StackOverflow, \<lparr>parent = [1, 2, 3, 3], rank = [0, 0, 0, 0]\<rparr>)"
    by (simp add: ev)
  have d: "find_frames 4 \<lparr>parent = [1, 2, 3, 3], rank = [0, 0, 0, 0]\<rparr> 0
     = Inr (3, \<lparr>parent = [3, 3, 3, 3], rank = [0, 0, 0, 0]\<rparr>)"
    by (simp add: ev)
  have one: "(1::nat) \<le> 1000000" and lt: "(999999::nat) < 1000000"
    and m: "(1000000::nat) - 1 = 999999" and i: "int 1000000 = 1000000"
    by simp_all
  have e: "UnionFind_init 1000000 = Inr \<lparr>parent = ladder 1000000 0, rank = replicate 1000000 0\<rparr>"
    using deep_chain(1)[OF one] by (simp only: i)
  have f: "run \<lparr>parent = ladder 1000000 0, rank = replicate 1000000 0\<rparr> (deep_calls 1000000)
     = Some (Inr \<lparr>parent = ladder 1000000 999999, rank = replicate 1000000 0\<rparr>)"
    using deep_chain(2)[OF one] by (simp only: m)
  have g: "find_frames 999999 \<lparr>parent = ladder 1000000 999999, rank = replicate 1000000 0\<rparr> 0
     = Inl (StackOverflow, \<lparr>parent = ladder 1000000 999999, rank = replicate 1000000 0\<rparr>)"
    using deep_find_overflow[OF one lt] by (simp only: m)
  show ?thesis using a b c d e f g by (intro conjI)
qed

text \<open>
  C4, amended. Every state reached from the constructor by a sequence of calls of
  \<open>find\<close>, \<open>unionSets\<close> (with two or three arguments), \<open>unionBySize\<close> and \<open>connected\<close>
  that return has a parent array of length \<open>n\<close> in which the parent chain of every
  element ends at a root, and at one root only; the sets of the roots are non-empty,
  pairwise disjoint and cover \<open>{0, \<dots>, n - 1}\<close>. The chain of an element has between
  \<open>1\<close> and \<open>n\<close> nodes, and \<open>find\<close> recurses once for each of them: on a stack with room
  for that many frames it returns the root of the element, on a shorter one it overflows
  the stack, with nothing written. \<open>connected\<close> answers whether the two elements have a
  common root whenever it returns, which it does on a stack with room for \<open>n\<close> frames;
  it fails by stack overflow only. A chain of \<open>n\<close> nodes is reached for every \<open>n \<ge> 1\<close>,
  by the calls \<open>deep_calls n\<close>, and \<^verbatim>\<open>find(0)\<close> then overflows every stack with room for
  less than \<open>n\<close> frames.
\<close>

theorem reachable_invariant:
  assumes "UnionFind_init n = Inr s0" and "n \<le> INT_MAX" and "run s0 cs = Some (Inr s)"
  shows "length (parent s) = nat n \<and>
         (\<forall>x. in_range (parent s) x \<longrightarrow>
            (\<exists>r. chain (parent s) x r \<and> is_root (parent s) r \<and>
                 (\<forall>r'. chain (parent s) x r' \<longrightarrow> r' = r))) \<and>
         (\<Union>r\<in>roots (parent s). set_of (parent s) r) = {0..<n} \<and>
         (\<forall>a\<in>roots (parent s). \<forall>b\<in>roots (parent s). a \<noteq> b \<longrightarrow>
            set_of (parent s) a \<inter> set_of (parent s) b = {}) \<and>
         (\<forall>a\<in>roots (parent s). a \<in> set_of (parent s) a) \<and>
         (\<forall>x. in_range (parent s) x \<longrightarrow>
            (\<exists>r t d. chain (parent s) x r \<and> depth (parent s) x d \<and> 1 \<le> d \<and> d \<le> nat n \<and>
               find_uf s x = Some (Inr (r, t)) \<and>
               (\<forall>k. find_frames k s x =
                  (if k < d then Inl (StackOverflow, s) else Inr (r, t))))) \<and>
         (\<forall>x y k. in_range (parent s) x \<and> in_range (parent s) y \<longrightarrow>
            (\<exists>t. connected_frames k s x y = Inr (same_root (parent s) x y, t)) \<or>
            k < nat n \<and> (\<exists>t. connected_frames k s x y = Inl (StackOverflow, t))) \<and>
         (1 \<le> n \<longrightarrow>
            (\<exists>sd. run s0 (deep_calls (nat n)) = Some (Inr sd) \<and> depth (parent sd) 0 (nat n) \<and>
               (\<forall>k. k < nat n \<longrightarrow> find_frames k sd 0 = Inl (StackOverflow, sd))))"
proof -
  have n0: "0 \<le> n" using assms(1) by (auto simp: UnionFind_init_def split: if_splits)
  have i0: "uf_inv s0" and l0: "length (parent s0) = nat n"
    using uf_inv_init[OF assms(1,2)] by simp_all
  have i: "uf_inv s" using i0 assms(3) by (rule uf_inv_run)
  have l: "length (parent s) = nat n" using run_length[OF i0 assms(3)] l0 by simp
  have w: "wf_parent (parent s)" using i by (simp add: uf_inv_def)
  have a: "\<forall>x. in_range (parent s) x \<longrightarrow>
            (\<exists>r. chain (parent s) x r \<and> is_root (parent s) r \<and>
                 (\<forall>r'. chain (parent s) x r' \<longrightarrow> r' = r))"
    using w wf_parent_chain chain_is_root chain_unique by blast
  have b: "(\<Union>r\<in>roots (parent s). set_of (parent s) r) = {0..<n}"
    using wf_partition[OF w] l n0 by simp
  have c: "\<forall>a\<in>roots (parent s). \<forall>b\<in>roots (parent s). a \<noteq> b \<longrightarrow>
            set_of (parent s) a \<inter> set_of (parent s) b = {}"
    using set_of_disjoint by blast
  have d: "\<forall>a\<in>roots (parent s). a \<in> set_of (parent s) a"
    by (simp add: roots_def set_of_def is_root_chain)
  have f: "\<exists>r t d. chain (parent s) x r \<and> depth (parent s) x d \<and> 1 \<le> d \<and> d \<le> nat n \<and>
               find_uf s x = Some (Inr (r, t)) \<and>
               (\<forall>k. find_frames k s x =
                  (if k < d then Inl (StackOverflow, s) else Inr (r, t)))"
    if x: "in_range (parent s) x" for x
  proof -
    obtain r where cx: "chain (parent s) x r" using w x wf_parent_chain by blast
    then obtain dx where dx: "depth (parent s) x dx" using chain_depth by blast
    from find_uf_chain[OF cx] obtain t where fx: "find_uf s x = Some (Inr (r, t))" by blast
    have "\<forall>k. find_frames k s x = (if k < dx then Inl (StackOverflow, s) else Inr (r, t))"
      using find_frames_depth[OF dx fx] by blast
    moreover have "1 \<le> dx" using dx by (rule depth_pos)
    moreover have "dx \<le> nat n" using depth_le_length[OF dx] l by simp
    ultimately show ?thesis using cx dx fx by blast
  qed
  have e: "(\<exists>t. connected_frames k s x y = Inr (same_root (parent s) x y, t)) \<or>
            k < nat n \<and> (\<exists>t. connected_frames k s x y = Inl (StackOverflow, t))"
    if xy: "in_range (parent s) x \<and> in_range (parent s) y" for x y k
  proof -
    obtain rx ry where cx: "chain (parent s) x rx" and cy: "chain (parent s) y ry"
      using w xy wf_parent_chain by blast
    obtain dx dy where dx: "depth (parent s) x dx" and dy: "depth (parent s) y dy"
      using cx cy chain_depth by blast
    have le: "dx \<le> nat n" "dy \<le> nat n" using depth_le_length[OF dx] depth_le_length[OF dy] l by simp_all
    from connected_result[OF cx cy] obtain t where
      cr: "connected s x y = Some (Inr (same_root (parent s) x y, t))"
      using same_root_iff[OF cx cy] by auto
    from frames_or_overflow[OF dx dy, of k True "[]"]
    consider (o) "\<exists>t. connected_frames k s x y = Inl (StackOverflow, t)" "k < dx \<or> k < dy"
      | (r) "Some (connected_frames k s x y) = connected s x y" by blast
    then show ?thesis
    proof cases
      case o
      then show ?thesis using le by auto
    next
      case r
      then have "connected_frames k s x y = Inr (same_root (parent s) x y, t)" using cr by simp
      then show ?thesis by blast
    qed
  qed
  have g: "\<exists>sd. run s0 (deep_calls (nat n)) = Some (Inr sd) \<and> depth (parent sd) 0 (nat n) \<and>
               (\<forall>k. k < nat n \<longrightarrow> find_frames k sd 0 = Inl (StackOverflow, sd))"
    if n1: "1 \<le> n"
  proof -
    have m: "1 \<le> nat n" and nn: "int (nat n) = n" using n1 by simp_all
    let ?sd = "\<lparr>parent = ladder (nat n) (nat n - 1), rank = replicate (nat n) 0\<rparr>"
    have "UnionFind_init n = Inr \<lparr>parent = ladder (nat n) 0, rank = replicate (nat n) 0\<rparr>"
      using deep_chain(1)[OF m] by (simp only: nn)
    then have "s0 = \<lparr>parent = ladder (nat n) 0, rank = replicate (nat n) 0\<rparr>"
      using assms(1) by simp
    then have "run s0 (deep_calls (nat n)) = Some (Inr ?sd)" using deep_chain(2)[OF m] by simp
    moreover have "depth (parent ?sd) 0 (nat n)" using deep_chain(3)[OF m] by simp
    moreover have "\<forall>k. k < nat n \<longrightarrow> find_frames k ?sd 0 = Inl (StackOverflow, ?sd)"
      using deep_find_overflow[OF m] by blast
    ultimately show ?thesis by blast
  qed
  show ?thesis using l a b c d f e g by blast
qed

theorem reachable_invariant_witness:
  "UnionFind_init 4 = Inr \<lparr>parent = [0, 1, 2, 3], rank = [0, 0, 0, 0]\<rparr> \<and>
   (4::int) \<le> INT_MAX \<and>
   run \<lparr>parent = [0, 1, 2, 3], rank = [0, 0, 0, 0]\<rparr> [UnionSets 0 1, UnionSets 2 3, UnionSets 0 2]
     = Some (Inr \<lparr>parent = [0, 0, 0, 2], rank = [2, 0, 1, 0]\<rparr>) \<and>
   in_range [0, 0, 0, 2] 3 \<and> in_range [0, 0, 0, 2] 1 \<and> 0 \<in> roots [0, 0, 0, 2] \<and>
   (\<Union>r\<in>roots [0, 0, 0, 2]. set_of [0, 0, 0, 2] r) = {0..<4} \<and>
   (\<exists>r. chain [0, 0, 0, 2] 3 r \<and> is_root [0, 0, 0, 2] r) \<and>
   (\<exists>r t d. depth [0, 0, 0, 2] 3 d \<and> d \<le> 4 \<and>
      find_uf \<lparr>parent = [0, 0, 0, 2], rank = [2, 0, 1, 0]\<rparr> 3 = Some (Inr (r, t)) \<and>
      find_frames 4 \<lparr>parent = [0, 0, 0, 2], rank = [2, 0, 1, 0]\<rparr> 3 = Inr (r, t)) \<and>
   (\<exists>t. connected_frames 4 \<lparr>parent = [0, 0, 0, 2], rank = [2, 0, 1, 0]\<rparr> 3 1
      = Inr (same_root [0, 0, 0, 2] 3 1, t)) \<and>
   (1::int) \<le> 4 \<and>
   (\<exists>sd. run \<lparr>parent = [0, 1, 2, 3], rank = [0, 0, 0, 0]\<rparr> (deep_calls 4) = Some (Inr sd) \<and>
      depth (parent sd) 0 4 \<and> find_frames 3 sd 0 = Inl (StackOverflow, sd))"
proof -
  let ?s = "\<lparr>parent = [0, 0, 0, 2], rank = [2, 0, 1, 0]\<rparr>"
  have m: "(4::int) \<le> INT_MAX" by (simp add: INT_MAX_def)
  have r3: "in_range [0, 0, 0, 2] 3" and r1: "in_range [0, 0, 0, 2] 1"
    by (simp_all add: in_range_def)
  have ro: "0 \<in> roots [0, 0, 0, 2]" by (simp add: roots_def is_root_def in_range_def at_def)
  have one: "(1::int) \<le> 4" by simp
  note th = reachable_invariant[OF example_init m example_run]
  have a: "(\<Union>r\<in>roots [0, 0, 0, 2]. set_of [0, 0, 0, 2] r) = {0..<4}"
    using th[THEN conjunct2, THEN conjunct2, THEN conjunct1] by simp
  have p3: "in_range (parent ?s) 3" and p1: "in_range (parent ?s) 1"
    using r3 r1 by simp_all
  have "\<exists>r. chain (parent ?s) 3 r \<and> is_root (parent ?s) r \<and>
      (\<forall>r'. chain (parent ?s) 3 r' \<longrightarrow> r' = r)"
    using th[THEN conjunct2, THEN conjunct1, rule_format, of 3] p3 by blast
  then obtain r where "chain [0, 0, 0, 2] 3 r" "is_root [0, 0, 0, 2] r" by auto
  then have b: "\<exists>r. chain [0, 0, 0, 2] 3 r \<and> is_root [0, 0, 0, 2] r" by blast
  from th[THEN conjunct2, THEN conjunct2, THEN conjunct2, THEN conjunct2, THEN conjunct2,
        THEN conjunct1, rule_format, OF p3]
  obtain r t d where d: "depth (parent ?s) 3 d" and le: "d \<le> nat 4" and
    f: "find_uf ?s 3 = Some (Inr (r, t))" and
    k: "\<forall>k. find_frames k ?s 3 = (if k < d then Inl (StackOverflow, ?s) else Inr (r, t))"
    by blast
  have d': "depth [0, 0, 0, 2] 3 d" and le': "d \<le> 4" using d le by simp_all
  have "find_frames 4 ?s 3 = Inr (r, t)" using k le' by simp
  then have c: "\<exists>r t d. depth [0, 0, 0, 2] 3 d \<and> d \<le> 4 \<and>
      find_uf ?s 3 = Some (Inr (r, t)) \<and> find_frames 4 ?s 3 = Inr (r, t)"
    using d' le' f by blast
  have "(\<exists>t. connected_frames 4 ?s 3 1 = Inr (same_root (parent ?s) 3 1, t)) \<or>
        4 < nat 4 \<and> (\<exists>t. connected_frames 4 ?s 3 1 = Inl (StackOverflow, t))"
    using th[THEN conjunct2, THEN conjunct2, THEN conjunct2, THEN conjunct2, THEN conjunct2,
        THEN conjunct2, THEN conjunct1, rule_format, of 3 1 4] p3 p1 by blast
  then have e: "\<exists>t. connected_frames 4 ?s 3 1 = Inr (same_root [0, 0, 0, 2] 3 1, t)"
    by simp
  from th[THEN conjunct2, THEN conjunct2, THEN conjunct2, THEN conjunct2, THEN conjunct2,
        THEN conjunct2, THEN conjunct2, rule_format, OF one]
  obtain sd where r: "run \<lparr>parent = [0, 1, 2, 3], rank = [0, 0, 0, 0]\<rparr> (deep_calls (nat 4)) = Some (Inr sd)"
    and dd: "depth (parent sd) 0 (nat 4)"
    and o: "\<forall>k. k < nat 4 \<longrightarrow> find_frames k sd 0 = Inl (StackOverflow, sd)"
    by blast
  have "find_frames 3 sd 0 = Inl (StackOverflow, sd)" using o by simp
  then have g: "\<exists>sd. run \<lparr>parent = [0, 1, 2, 3], rank = [0, 0, 0, 0]\<rparr> (deep_calls 4) = Some (Inr sd) \<and>
      depth (parent sd) 0 4 \<and> find_frames 3 sd 0 = Inl (StackOverflow, sd)"
    using r dd by auto
  show ?thesis using example_init m example_run r3 r1 ro a b c e one g by (intro conjI)
qed

section \<open>Union by size\<close>

lemma unionBySize_recorded:
  assumes "chain (parent s) x rx" and "chain (parent s) y ry" and "rx \<noteq> ry"
    and "in_range sz rx \<and> in_range sz ry \<and> int_ok (at sz rx + at sz ry) \<or>
         sizes_exact (parent s) sz \<and> int (length (parent s)) \<le> INT_MAX"
  shows "\<exists>s' sz'. unionBySize s x y sz = Some (Inr (s', sz')) \<and> rank s' = rank s \<and>
           (at sz rx < at sz ry \<longrightarrow>
              at (parent s') rx = ry \<and> is_root (parent s') ry \<and> linked (parent s) ry rx (parent s')) \<and>
           (at sz ry \<le> at sz rx \<longrightarrow>
              at (parent s') ry = rx \<and> is_root (parent s') rx \<and> linked (parent s) rx ry (parent s')) \<and>
           length sz' = length sz \<and>
           (\<exists>r s''. find_uf s' x = Some (Inr (r, s'')) \<and> is_root (parent s') r \<and>
              (r = rx \<or> r = ry) \<and>
              at sz' r = at sz rx + at sz ry \<and>
              (\<forall>i. in_range sz i \<and> i \<noteq> r \<longrightarrow> at sz' i = at sz i)) \<and>
           (sizes_exact (parent s) sz \<longrightarrow> sizes_exact (parent s') sz')"
proof -
  have rx: "is_root (parent s) rx" and ry: "is_root (parent s) ry"
    using assms(1,2) by (auto intro: chain_is_root)
  have ok: "in_range sz rx" "in_range sz ry" "int_ok (at sz rx + at sz ry)"
    using assms(4) sizes_exact_fits[OF _ _ rx ry assms(3)] by blast+
  from unionBySize_result[OF assms(1,2), of sz] obtain p2 where ss: "same_sets (parent s) p2" and
    e: "unionBySize s x y sz =
             (if rx = ry then Some (Inr (s\<lparr>parent := p2\<rparr>, sz))
              else if \<not> (in_range sz rx \<and> in_range sz ry)
                then Some (Inl (OutOfBounds, (s\<lparr>parent := p2\<rparr>, sz)))
              else if at sz rx < at sz ry then
                (if \<not> int_ok (at sz ry + at sz rx)
                 then Some (Inl (SignedOverflow, (s\<lparr>parent := upd p2 rx ry\<rparr>, sz)))
                 else Some (Inr (s\<lparr>parent := upd p2 rx ry\<rparr>, upd sz ry (at sz ry + at sz rx))))
              else
                (if \<not> int_ok (at sz rx + at sz ry)
                 then Some (Inl (SignedOverflow, (s\<lparr>parent := upd p2 ry rx\<rparr>, sz)))
                 else Some (Inr (s\<lparr>parent := upd p2 ry rx\<rparr>, upd sz rx (at sz rx + at sz ry)))))"
    by blast
  have l1: "linked (parent s) ry rx (upd p2 rx ry)" and l2: "linked (parent s) rx ry (upd p2 ry rx)"
    using ss by (simp_all add: linkedI)
  show ?thesis
  proof (cases "at sz rx < at sz ry")
    case True
    let ?s' = "s\<lparr>parent := upd p2 rx ry\<rparr>" and ?sz' = "upd sz ry (at sz ry + at sz rx)"
    have u: "unionBySize s x y sz = Some (Inr (?s', ?sz'))"
      using e assms(3) ok True by (simp add: add.commute)
    have a: "at (parent ?s') rx = ry" "is_root (parent ?s') ry"
      using linked_at[OF l1 ry rx] assms(3) by auto
    have "chain (parent ?s') x ry"
      using linked_chain[OF l1 ry rx, of x ry] assms(1,3) by auto
    from find_uf_chain[OF this] obtain p' where
      f: "find_uf ?s' x = Some (Inr (ry, ?s'\<lparr>parent := p'\<rparr>))" by blast
    have z: "at ?sz' ry = at sz rx + at sz ry"
      "\<forall>i. in_range sz i \<and> i \<noteq> ry \<longrightarrow> at ?sz' i = at sz i"
      using at_upd[OF ok(2)] ok(2) by (simp_all add: at_upd_same)
    have x: "sizes_exact (parent s) sz \<longrightarrow> sizes_exact (parent ?s') ?sz'"
      using sizes_exact_linked[OF _ l1 ry rx] assms(3) by auto
    have fx: "\<exists>r s''. find_uf ?s' x = Some (Inr (r, s'')) \<and> is_root (parent ?s') r \<and>
              (r = rx \<or> r = ry) \<and>
              at ?sz' r = at sz rx + at sz ry \<and>
              (\<forall>i. in_range sz i \<and> i \<noteq> r \<longrightarrow> at ?sz' i = at sz i)"
      using f a(2) z by blast
    show ?thesis
      apply (rule exI[of _ ?s'], rule exI[of _ ?sz'])
      using u a l1 True fx x by (simp add: length_upd)
  next
    case False
    let ?s' = "s\<lparr>parent := upd p2 ry rx\<rparr>" and ?sz' = "upd sz rx (at sz rx + at sz ry)"
    have u: "unionBySize s x y sz = Some (Inr (?s', ?sz'))"
      using e assms(3) ok False by simp
    have a: "at (parent ?s') ry = rx" "is_root (parent ?s') rx"
      using linked_at[OF l2 rx ry] assms(3) by auto
    have "chain (parent ?s') x rx"
      using linked_chain[OF l2 rx ry, of x rx] assms(1,3) by auto
    from find_uf_chain[OF this] obtain p' where
      f: "find_uf ?s' x = Some (Inr (rx, ?s'\<lparr>parent := p'\<rparr>))" by blast
    have z: "at ?sz' rx = at sz rx + at sz ry"
      "\<forall>i. in_range sz i \<and> i \<noteq> rx \<longrightarrow> at ?sz' i = at sz i"
      using at_upd[OF ok(1)] ok(1) by (simp_all add: at_upd_same)
    have x: "sizes_exact (parent s) sz \<longrightarrow> sizes_exact (parent ?s') ?sz'"
      using sizes_exact_linked[OF _ l2 rx ry] assms(3) by auto
    have fx: "\<exists>r s''. find_uf ?s' x = Some (Inr (r, s'')) \<and> is_root (parent ?s') r \<and>
              (r = rx \<or> r = ry) \<and>
              at ?sz' r = at sz rx + at sz ry \<and>
              (\<forall>i. in_range sz i \<and> i \<noteq> r \<longrightarrow> at ?sz' i = at sz i)"
      using f a(2) z by blast
    show ?thesis
      apply (rule exI[of _ ?s'], rule exI[of _ ?sz'])
      using u a l2 False fx x by (simp add: length_upd)
  qed
qed

lemma example3_cases:
  assumes c: "chain [0, 0, 2] v r"
  shows "v = 0 \<and> r = 0 \<or> v = 1 \<and> r = 0 \<or> v = 2 \<and> r = 2"
proof -
  have "in_range [0, 0, 2] v" using c by (rule chain_in_range)
  then have "0 \<le> v" "v < 3" by (simp_all add: in_range_def)
  then consider "v = 0" | "v = 1" | "v = 2" by linarith
  then show ?thesis
  proof cases
    case 1
    then have "chain [0, 0, 2] 0 r" using c by simp
    from chain_unique[OF this example3_chains(4)] 1 show ?thesis by simp
  next
    case 2
    then have "chain [0, 0, 2] 1 r" using c by simp
    from chain_unique[OF this example3_chains(5)] 2 show ?thesis by simp
  next
    case 3
    then have "chain [0, 0, 2] 2 r" using c by simp
    from chain_unique[OF this example3_chains(6)] 3 show ?thesis by simp
  qed
qed

lemma example3_sets: "set_of [0, 0, 2] 0 = {0, 1}" "set_of [0, 0, 2] 2 = {2}"
proof -
  have a: "chain [0, 0, 2] v 0 \<longleftrightarrow> v = 0 \<or> v = 1" for v
    using example3_cases[of v 0] example3_chains(4,5) by auto
  have b: "chain [0, 0, 2] v 2 \<longleftrightarrow> v = 2" for v
    using example3_cases[of v 2] example3_chains(6) by auto
  show "set_of [0, 0, 2] 0 = {0, 1}" by (auto simp: set_of_def a)
  show "set_of [0, 0, 2] 2 = {2}" by (auto simp: set_of_def b)
qed

lemma example3_merged_chains:
  "chain [2, 0, 2] 0 2" "chain [2, 0, 2] 1 2" "chain [2, 0, 2] 2 2"
proof -
  show c2: "chain [2, 0, 2] 2 2" by (rule chain_root) (simp_all add: in_range_def at_def)
  show c0: "chain [2, 0, 2] 0 2" by (rule chain_via[where w=2]) (simp_all add: in_range_def at_def c2)
  show "chain [2, 0, 2] 1 2" by (rule chain_via[where w=0]) (simp_all add: in_range_def at_def c0)
qed

lemma example3_merged_set: "set_of [2, 0, 2] 2 = {0, 1, 2}"
proof -
  have "v = 0 \<or> v = 1 \<or> v = 2" if "chain [2, 0, 2] v 2" for v
  proof -
    have "0 \<le> v" "v < 3" using chain_in_range[OF that] by (simp_all add: in_range_def)
    then show ?thesis by linarith
  qed
  then show ?thesis using example3_merged_chains by (auto simp: set_of_def)
qed

lemma example3_sizes_exact: "sizes_exact [0, 0, 2] [2, 1, 1]"
proof -
  have "at [2, 1, 1] r = int (card (set_of [0, 0, 2] r))" if "is_root [0, 0, 2] r" for r
  proof -
    have "chain [0, 0, 2] r r" using that by (rule is_root_chain)
    then have "r = 0 \<or> r = 2" using example3_cases by blast
    then show ?thesis by (auto simp: example3_sets at_def)
  qed
  then show ?thesis by (simp add: sizes_exact_def)
qed

text \<open>
  C8 as stated fails. \<open>unionBySize\<close> compares and adds the entries of the size vector
  that its caller passes, whatever the sets are. On three elements, after
  \<^verbatim>\<open>unionSets(0, 1)\<close> (by rank, which knows no sizes) the set of the root \<open>0\<close> is
  \<open>{0, 1}\<close> and that of the root \<open>2\<close> is \<open>{2}\<close>, while the size vector still is
  \<open>[1, 1, 1]\<close>. \<^verbatim>\<open>unionBySize(2, 0, size)\<close> then attaches the root \<open>0\<close> of the larger
  set under the root \<open>2\<close> of the strictly smaller one, and records the size \<open>2\<close> at the
  root \<open>2\<close> that \<open>find\<close> returns, where the two sets had \<open>1 + 2 = 3\<close> elements.
\<close>

theorem union_by_size_counterexample:
  "UnionFind_init 3 = Inr \<lparr>parent = [0, 1, 2], rank = [0, 0, 0]\<rparr> \<and>
   run \<lparr>parent = [0, 1, 2], rank = [0, 0, 0]\<rparr> [UnionSets 0 1]
     = Some (Inr \<lparr>parent = [0, 0, 2], rank = [1, 0, 0]\<rparr>) \<and>
   chain [0, 0, 2] 2 2 \<and> chain [0, 0, 2] 0 0 \<and>
   set_of [0, 0, 2] 2 = {2} \<and> set_of [0, 0, 2] 0 = {0, 1} \<and>
   card (set_of [0, 0, 2] 2) < card (set_of [0, 0, 2] 0) \<and>
   unionBySize \<lparr>parent = [0, 0, 2], rank = [1, 0, 0]\<rparr> 2 0 [1, 1, 1]
     = Some (Inr (\<lparr>parent = [2, 0, 2], rank = [1, 0, 0]\<rparr>, [1, 1, 2])) \<and>
   at [2, 0, 2] 0 = 2 \<and> at [2, 0, 2] 2 = 2 \<and>
   find_uf \<lparr>parent = [2, 0, 2], rank = [1, 0, 0]\<rparr> 2
     = Some (Inr (2, \<lparr>parent = [2, 0, 2], rank = [1, 0, 0]\<rparr>)) \<and>
   at [1, 1, 2] 2 = 2 \<and>
   int (card (set_of [0, 0, 2] 2)) + int (card (set_of [0, 0, 2] 0)) = 3 \<and>
   set_of [2, 0, 2] 2 = {0, 1, 2}"
proof -
  have a: "unionBySize \<lparr>parent = [0, 0, 2], rank = [1, 0, 0]\<rparr> 2 0 [1, 1, 1]
     = Some (Inr (\<lparr>parent = [2, 0, 2], rank = [1, 0, 0]\<rparr>, [1, 1, 2]))"
    by (simp add: ev)
  have b: "at [2, 0, 2] 0 = 2" "at [2, 0, 2] 2 = 2" "at [1, 1, 2] 2 = 2" by (simp_all add: at_def)
  have c: "find_uf \<lparr>parent = [2, 0, 2], rank = [1, 0, 0]\<rparr> 2
     = Some (Inr (2, \<lparr>parent = [2, 0, 2], rank = [1, 0, 0]\<rparr>))"
    by (simp add: ev)
  have d: "card (set_of [0, 0, 2] 2) < card (set_of [0, 0, 2] 0)"
    "int (card (set_of [0, 0, 2] 2)) + int (card (set_of [0, 0, 2] 0)) = 3"
    by (simp_all add: example3_sets)
  show ?thesis
    using example3_init example3_run example3_chains(6,4) example3_sets(2,1) d(1) a b(1,2) c b(3)
      d(2) example3_merged_set
    by (intro conjI)
qed

text \<open>
  C8, amended. \<open>unionBySize\<close> on two elements whose roots \<open>rx\<close> and \<open>ry\<close> differ, with a
  size vector that has entries for both roots whose sum is an \<open>int\<close>: the root with the
  strictly smaller recorded size is attached under the other one (on equal recorded
  sizes \<open>ry\<close> under \<open>rx\<close>), and the sum of the two recorded sizes is stored at the
  surviving root, every other entry being kept; so the size recorded at the root that
  \<open>find\<close> then returns for \<open>x\<close> is the sum of the two recorded sizes. If the vector
  records the exact sizes of the sets (and the number of elements is an \<open>int\<close>), it has
  these entries and their sum is an \<open>int\<close>; then the root of the strictly smaller set is
  attached under the root of the larger one (on equal sizes \<open>ry\<close> under \<open>rx\<close>), the size
  recorded at the root that \<open>find\<close> returns for \<open>x\<close> is the sum of the sizes of the two
  original sets and the size of its set, and the vector stays exact.
\<close>

theorem union_by_size_policy:
  assumes "chain (parent s) x rx" and "chain (parent s) y ry" and "rx \<noteq> ry"
    and "in_range sz rx \<and> in_range sz ry \<and> int_ok (at sz rx + at sz ry) \<or>
         sizes_exact (parent s) sz \<and> int (length (parent s)) \<le> INT_MAX"
  shows "\<exists>s' sz'. unionBySize s x y sz = Some (Inr (s', sz')) \<and> rank s' = rank s \<and>
           (at sz rx < at sz ry \<longrightarrow>
              at (parent s') rx = ry \<and> is_root (parent s') ry \<and> linked (parent s) ry rx (parent s')) \<and>
           (at sz ry \<le> at sz rx \<longrightarrow>
              at (parent s') ry = rx \<and> is_root (parent s') rx \<and> linked (parent s) rx ry (parent s')) \<and>
           length sz' = length sz \<and>
           (\<exists>r s''. find_uf s' x = Some (Inr (r, s'')) \<and> is_root (parent s') r \<and>
              (r = rx \<or> r = ry) \<and>
              at sz' r = at sz rx + at sz ry \<and>
              (\<forall>i. in_range sz i \<and> i \<noteq> r \<longrightarrow> at sz' i = at sz i) \<and>
              (sizes_exact (parent s) sz \<longrightarrow>
                 at sz' r = int (card (set_of (parent s) rx)) + int (card (set_of (parent s) ry)) \<and>
                 at sz' r = int (card (set_of (parent s') r)))) \<and>
           (sizes_exact (parent s) sz \<longrightarrow>
              sizes_exact (parent s') sz' \<and>
              (card (set_of (parent s) rx) < card (set_of (parent s) ry) \<longrightarrow>
                 at (parent s') rx = ry \<and> is_root (parent s') ry) \<and>
              (card (set_of (parent s) ry) \<le> card (set_of (parent s) rx) \<longrightarrow>
                 at (parent s') ry = rx \<and> is_root (parent s') rx))"
proof -
  have rx: "is_root (parent s) rx" and ry: "is_root (parent s) ry"
    using assms(1,2) by (auto intro: chain_is_root)
  from unionBySize_recorded[OF assms] obtain s' sz' r s'' where
    u: "unionBySize s x y sz = Some (Inr (s', sz'))" and k: "rank s' = rank s" and
    lt: "at sz rx < at sz ry \<longrightarrow>
              at (parent s') rx = ry \<and> is_root (parent s') ry \<and> linked (parent s) ry rx (parent s')" and
    ge: "at sz ry \<le> at sz rx \<longrightarrow>
              at (parent s') ry = rx \<and> is_root (parent s') rx \<and> linked (parent s) rx ry (parent s')" and
    l: "length sz' = length sz" and
    f: "find_uf s' x = Some (Inr (r, s''))" and rr: "is_root (parent s') r" and
    r: "r = rx \<or> r = ry" and
    z: "at sz' r = at sz rx + at sz ry" and
    o: "\<forall>i. in_range sz i \<and> i \<noteq> r \<longrightarrow> at sz' i = at sz i" and
    x: "sizes_exact (parent s) sz \<longrightarrow> sizes_exact (parent s') sz'"
    by blast
  have e: "at sz rx = int (card (set_of (parent s) rx))" "at sz ry = int (card (set_of (parent s) ry))"
    "at sz' r = int (card (set_of (parent s') r))"
    if "sizes_exact (parent s) sz"
    using that x rx ry rr by (simp_all add: sizes_exact_def)
  have a: "sizes_exact (parent s) sz \<longrightarrow>
                 at sz' r = int (card (set_of (parent s) rx)) + int (card (set_of (parent s) ry)) \<and>
                 at sz' r = int (card (set_of (parent s') r))"
    using e z by simp
  have b: "sizes_exact (parent s) sz \<longrightarrow>
              sizes_exact (parent s') sz' \<and>
              (card (set_of (parent s) rx) < card (set_of (parent s) ry) \<longrightarrow>
                 at (parent s') rx = ry \<and> is_root (parent s') ry) \<and>
              (card (set_of (parent s) ry) \<le> card (set_of (parent s) rx) \<longrightarrow>
                 at (parent s') ry = rx \<and> is_root (parent s') rx)"
    using e(1,2) x lt ge by simp
  have fx: "\<exists>r s''. find_uf s' x = Some (Inr (r, s'')) \<and> is_root (parent s') r \<and>
              (r = rx \<or> r = ry) \<and>
              at sz' r = at sz rx + at sz ry \<and>
              (\<forall>i. in_range sz i \<and> i \<noteq> r \<longrightarrow> at sz' i = at sz i) \<and>
              (sizes_exact (parent s) sz \<longrightarrow>
                 at sz' r = int (card (set_of (parent s) rx)) + int (card (set_of (parent s) ry)) \<and>
                 at sz' r = int (card (set_of (parent s') r)))"
    using f rr r z o a by blast
  show ?thesis
    apply (rule exI[of _ s'], rule exI[of _ sz'])
    using u k lt ge l fx b by (intro conjI)
qed

theorem union_by_size_policy_witness:
  "chain (parent \<lparr>parent = [0, 0, 2], rank = [1, 0, 0]\<rparr>) 2 2 \<and>
   chain (parent \<lparr>parent = [0, 0, 2], rank = [1, 0, 0]\<rparr>) 1 0 \<and> (2::int) \<noteq> 0 \<and>
   sizes_exact (parent \<lparr>parent = [0, 0, 2], rank = [1, 0, 0]\<rparr>) [2, 1, 1] \<and>
   int (length (parent \<lparr>parent = [0, 0, 2], rank = [1, 0, 0]\<rparr>)) \<le> INT_MAX \<and>
   at [2, 1, 1] 2 < at [2, 1, 1] 0 \<and>
   card (set_of [0, 0, 2] 2) < card (set_of [0, 0, 2] 0) \<and>
   unionBySize \<lparr>parent = [0, 0, 2], rank = [1, 0, 0]\<rparr> 2 1 [2, 1, 1]
     = Some (Inr (\<lparr>parent = [0, 0, 0], rank = [1, 0, 0]\<rparr>, [3, 1, 1])) \<and>
   (\<exists>s' sz'. unionBySize \<lparr>parent = [0, 0, 2], rank = [1, 0, 0]\<rparr> 2 1 [2, 1, 1]
        = Some (Inr (s', sz')) \<and>
      at (parent s') 2 = 0 \<and> is_root (parent s') 0 \<and> sizes_exact (parent s') sz' \<and>
      (\<exists>r s''. find_uf s' 2 = Some (Inr (r, s'')) \<and> at sz' r = at [2, 1, 1] 2 + at [2, 1, 1] 0 \<and>
         at sz' r = int (card (set_of [0, 0, 2] 2)) + int (card (set_of [0, 0, 2] 0)) \<and>
         at sz' r = int (card (set_of (parent s') r))))"
proof -
  let ?s = "\<lparr>parent = [0, 0, 2], rank = [1, 0, 0]\<rparr>"
  have c1: "chain (parent ?s) 2 2" and c2: "chain (parent ?s) 1 0"
    using example3_chains by simp_all
  have n: "(2::int) \<noteq> 0" by simp
  have se: "sizes_exact (parent ?s) [2, 1, 1]" using example3_sizes_exact by simp
  have m: "int (length (parent ?s)) \<le> INT_MAX" by (simp add: INT_MAX_def)
  have lt: "at [2, 1, 1] 2 < at [2, 1, 1] 0" by (simp add: at_def)
  have cl: "card (set_of [0, 0, 2] 2) < card (set_of [0, 0, 2] 0)" by (simp add: example3_sets)
  have cl': "card (set_of (parent ?s) 2) < card (set_of (parent ?s) 0)" using cl by simp
  have run: "unionBySize ?s 2 1 [2, 1, 1]
     = Some (Inr (\<lparr>parent = [0, 0, 0], rank = [1, 0, 0]\<rparr>, [3, 1, 1]))"
    by (simp add: ev)
  have h: "in_range [2, 1, 1] 2 \<and> in_range [2, 1, 1] 0 \<and> int_ok (at [2, 1, 1] 2 + at [2, 1, 1] 0) \<or>
         sizes_exact (parent ?s) [2, 1, 1] \<and> int (length (parent ?s)) \<le> INT_MAX"
    using se m by simp
  from union_by_size_policy[OF c1 c2 n h] obtain s' sz' r s'' where
    u: "unionBySize ?s 2 1 [2, 1, 1] = Some (Inr (s', sz'))" and
    g: "at [2, 1, 1] 2 < at [2, 1, 1] 0 \<longrightarrow> at (parent s') 2 = 0 \<and> is_root (parent s') 0 \<and>
          linked (parent ?s) 0 2 (parent s')" and
    f: "find_uf s' 2 = Some (Inr (r, s''))" and
    z: "at sz' r = at [2, 1, 1] 2 + at [2, 1, 1] 0" and
    a: "sizes_exact (parent ?s) [2, 1, 1] \<longrightarrow>
          at sz' r = int (card (set_of (parent ?s) 2)) + int (card (set_of (parent ?s) 0)) \<and>
          at sz' r = int (card (set_of (parent s') r))" and
    b: "sizes_exact (parent ?s) [2, 1, 1] \<longrightarrow>
          sizes_exact (parent s') sz' \<and>
          (card (set_of (parent ?s) 2) < card (set_of (parent ?s) 0) \<longrightarrow>
             at (parent s') 2 = 0 \<and> is_root (parent s') 0) \<and>
          (card (set_of (parent ?s) 0) \<le> card (set_of (parent ?s) 2) \<longrightarrow>
             at (parent s') 0 = 2 \<and> is_root (parent s') 2)"
    by blast
  have a': "at sz' r = int (card (set_of [0, 0, 2] 2)) + int (card (set_of [0, 0, 2] 0))"
    "at sz' r = int (card (set_of (parent s') r))"
    using a se by simp_all
  have b': "sizes_exact (parent s') sz'" "at (parent s') 2 = 0" "is_root (parent s') 0"
    using b se cl' by simp_all
  have x: "\<exists>s' sz'. unionBySize ?s 2 1 [2, 1, 1] = Some (Inr (s', sz')) \<and>
      at (parent s') 2 = 0 \<and> is_root (parent s') 0 \<and> sizes_exact (parent s') sz' \<and>
      (\<exists>r s''. find_uf s' 2 = Some (Inr (r, s'')) \<and> at sz' r = at [2, 1, 1] 2 + at [2, 1, 1] 0 \<and>
         at sz' r = int (card (set_of [0, 0, 2] 2)) + int (card (set_of [0, 0, 2] 0)) \<and>
         at sz' r = int (card (set_of (parent s') r)))"
    using u b' f z a' by blast
  show ?thesis using c1 c2 n se m lt cl run x by (intro conjI)
qed

section \<open>Element ids and failures\<close>

lemma example_depth: "depth [0, 0, 0, 2] 3 3"
proof -
  have d0: "depth [0, 0, 0, 2] 0 1" by (rule depth_root) (simp_all add: in_range_def at_def)
  have "depth [0, 0, 0, 2] (at [0, 0, 0, 2] 2) 1" using d0 by (simp add: at_def)
  then have "depth [0, 0, 0, 2] 2 (Suc 1)" by (rule depth_step[rotated 2]) (simp_all add: in_range_def at_def)
  then have "depth [0, 0, 0, 2] (at [0, 0, 0, 2] 3) (Suc 1)" by (simp add: at_def)
  then have "depth [0, 0, 0, 2] 3 (Suc (Suc 1))"
    by (rule depth_step[rotated 2]) (simp_all add: in_range_def at_def)
  then show ?thesis by (simp add: eval_nat_numeral)
qed

lemma valid_ids_frames:
  assumes i: "uf_inv s" and x: "in_range (parent s) x" and y: "in_range (parent s) y"
  shows "(\<exists>r t. find_frames k s x = Inr (r, t)) \<or>
           k < length (parent s) \<and> find_frames k s x = Inl (StackOverflow, s)"
    and "(\<exists>t. unionSets_frames k s x y = Inr t) \<or>
           k < length (parent s) \<and> (\<exists>t. unionSets_frames k s x y = Inl (StackOverflow, t))"
    and "(\<exists>t. unionSets3_frames k s x y b = Inr t) \<or>
           k < length (parent s) \<and> (\<exists>t. unionSets3_frames k s x y b = Inl (StackOverflow, t))"
    and "(\<exists>c t. connected_frames k s x y = Inr (c, t)) \<or>
           k < length (parent s) \<and> (\<exists>t. connected_frames k s x y = Inl (StackOverflow, t))"
    and "(\<exists>c t. connected_rl_frames k s x y = Inr (c, t)) \<or>
           k < length (parent s) \<and> (\<exists>t. connected_rl_frames k s x y = Inl (StackOverflow, t))"
    and "connected_frames k s x y = Inr ct \<and> connected_rl_frames k s x y = Inr ct' \<longrightarrow> ct = ct'"
proof -
  have w: "wf_parent (parent s)" using i by (simp add: uf_inv_def)
  obtain rx ry where cx: "chain (parent s) x rx" and cy: "chain (parent s) y ry"
    using w x y wf_parent_chain by blast
  obtain dx dy where dx: "depth (parent s) x dx" and dy: "depth (parent s) y dy"
    using cx cy chain_depth by blast
  have le: "dx \<le> length (parent s)" "dy \<le> length (parent s)"
    using depth_le_length[OF dx] depth_le_length[OF dy] by simp_all
  from find_uf_chain[OF cx] obtain t0 where f: "find_uf s x = Some (Inr (rx, t0))" by blast
  show "(\<exists>r t. find_frames k s x = Inr (r, t)) \<or>
           k < length (parent s) \<and> find_frames k s x = Inl (StackOverflow, s)"
    using find_frames_depth[OF dx f, of k] le(1) by auto
  from unionSets_result[OF i cx cy] obtain t1 where u1: "unionSets s x y = Some (Inr t1)" by blast
  have "\<exists>t. unionSets3 s x y b = Some (Inr t)"
  proof (cases b)
    case True
    then show ?thesis using u1 by (simp add: unionSets3_def)
  next
    case False
    from unionSets3_false_result[OF cx cy] obtain t where
      "unionSets3 s x y False = Some (Inr t)" by blast
    then show ?thesis using False by auto
  qed
  then obtain t2 where u2: "unionSets3 s x y b = Some (Inr t2)" by blast
  from connected_result[OF cx cy] obtain t3 where
    u3: "connected s x y = Some (Inr (rx = ry, t3))" by auto
  have u4: "connected_rl s x y = Some (Inr (rx = ry, t3))"
    using connected_order[OF cx cy] u3 by simp
  from frames_or_overflow[OF dx dy, of k b "[]"]
  consider (o) "\<exists>t. unionSets_frames k s x y = Inl (StackOverflow, t)"
      "\<exists>t. unionSets3_frames k s x y b = Inl (StackOverflow, t)"
      "\<exists>t. connected_frames k s x y = Inl (StackOverflow, t)" "k < dx \<or> k < dy"
    | (r) "Some (unionSets_frames k s x y) = unionSets s x y"
      "Some (unionSets3_frames k s x y b) = unionSets3 s x y b"
      "Some (connected_frames k s x y) = connected s x y"
    by blast
  then have a: "((\<exists>t. unionSets_frames k s x y = Inr t) \<or>
           k < length (parent s) \<and> (\<exists>t. unionSets_frames k s x y = Inl (StackOverflow, t))) \<and>
      ((\<exists>t. unionSets3_frames k s x y b = Inr t) \<or>
           k < length (parent s) \<and> (\<exists>t. unionSets3_frames k s x y b = Inl (StackOverflow, t))) \<and>
      ((\<exists>c t. connected_frames k s x y = Inr (c, t)) \<or>
           k < length (parent s) \<and> (\<exists>t. connected_frames k s x y = Inl (StackOverflow, t))) \<and>
      (\<forall>ct. connected_frames k s x y = Inr ct \<longrightarrow> ct = (rx = ry, t3))"
  proof cases
    case o
    have "k < length (parent s)" using o(4) le by auto
    then show ?thesis using o(1,2,3) by auto
  next
    case r
    have "unionSets_frames k s x y = Inr t1" using r(1) u1 by simp
    moreover have "unionSets3_frames k s x y b = Inr t2" using r(2) u2 by simp
    moreover have "connected_frames k s x y = Inr (rx = ry, t3)" using r(3) u3 by simp
    ultimately show ?thesis by simp
  qed
  show "(\<exists>t. unionSets_frames k s x y = Inr t) \<or>
           k < length (parent s) \<and> (\<exists>t. unionSets_frames k s x y = Inl (StackOverflow, t))"
    and "(\<exists>t. unionSets3_frames k s x y b = Inr t) \<or>
           k < length (parent s) \<and> (\<exists>t. unionSets3_frames k s x y b = Inl (StackOverflow, t))"
    and "(\<exists>c t. connected_frames k s x y = Inr (c, t)) \<or>
           k < length (parent s) \<and> (\<exists>t. connected_frames k s x y = Inl (StackOverflow, t))"
    using a by blast+
  from frames_or_overflow[OF dy dx, of k b "[]"]
  consider (o) "\<exists>t. connected_rl_frames k s x y = Inl (StackOverflow, t)" "k < dy \<or> k < dx"
    | (r) "Some (connected_rl_frames k s x y) = connected_rl s x y"
    by blast
  then have c: "((\<exists>c t. connected_rl_frames k s x y = Inr (c, t)) \<or>
           k < length (parent s) \<and> (\<exists>t. connected_rl_frames k s x y = Inl (StackOverflow, t))) \<and>
        (\<forall>ct. connected_rl_frames k s x y = Inr ct \<longrightarrow> ct = (rx = ry, t3))"
  proof cases
    case o
    have "k < length (parent s)" using o(2) le by auto
    then show ?thesis using o(1) by auto
  next
    case r
    have "connected_rl_frames k s x y = Inr (rx = ry, t3)" using r u4 by simp
    then show ?thesis by simp
  qed
  show "(\<exists>c t. connected_rl_frames k s x y = Inr (c, t)) \<or>
           k < length (parent s) \<and> (\<exists>t. connected_rl_frames k s x y = Inl (StackOverflow, t))"
    using c by blast
  have "ct = (rx = ry, t3)" if "connected_frames k s x y = Inr ct" using a that by blast
  moreover have "ct' = (rx = ry, t3)" if "connected_rl_frames k s x y = Inr ct'" using c that by blast
  ultimately show "connected_frames k s x y = Inr ct \<and> connected_rl_frames k s x y = Inr ct' \<longrightarrow> ct = ct'"
    by blast
qed

lemma unionBySize_frames_cases:
  assumes cx: "chain (parent s) x rx" and cy: "chain (parent s) y ry"
  shows "k < length (parent s) \<and>
           (\<exists>t. unionBySize_frames k s x y sz = Inl (StackOverflow, (t, sz))) \<or>
         (rx = ry \<or> in_range sz rx \<and> in_range sz ry \<and> int_ok (at sz rx + at sz ry) \<longrightarrow>
            (\<exists>t sz'. unionBySize_frames k s x y sz = Inr (t, sz'))) \<and>
         (rx \<noteq> ry \<and> \<not> (in_range sz rx \<and> in_range sz ry) \<longrightarrow>
            (\<exists>t. unionBySize_frames k s x y sz = Inl (OutOfBounds, (t, sz)) \<and>
                 same_sets (parent s) (parent t))) \<and>
         (rx \<noteq> ry \<and> in_range sz rx \<and> in_range sz ry \<and> \<not> int_ok (at sz rx + at sz ry) \<longrightarrow>
            (\<exists>t. unionBySize_frames k s x y sz = Inl (SignedOverflow, (t, sz)) \<and>
                 (linked (parent s) ry rx (parent t) \<or> linked (parent s) rx ry (parent t))))"
proof -
  obtain dx dy where dx: "depth (parent s) x dx" and dy: "depth (parent s) y dy"
    using cx cy chain_depth by blast
  have le: "dx \<le> length (parent s)" "dy \<le> length (parent s)"
    using depth_le_length[OF dx] depth_le_length[OF dy] by simp_all
  from unionBySize_result[OF cx cy, of sz] obtain p2 where ss: "same_sets (parent s) p2" and
    e: "unionBySize s x y sz =
             (if rx = ry then Some (Inr (s\<lparr>parent := p2\<rparr>, sz))
              else if \<not> (in_range sz rx \<and> in_range sz ry)
                then Some (Inl (OutOfBounds, (s\<lparr>parent := p2\<rparr>, sz)))
              else if at sz rx < at sz ry then
                (if \<not> int_ok (at sz ry + at sz rx)
                 then Some (Inl (SignedOverflow, (s\<lparr>parent := upd p2 rx ry\<rparr>, sz)))
                 else Some (Inr (s\<lparr>parent := upd p2 rx ry\<rparr>, upd sz ry (at sz ry + at sz rx))))
              else
                (if \<not> int_ok (at sz rx + at sz ry)
                 then Some (Inl (SignedOverflow, (s\<lparr>parent := upd p2 ry rx\<rparr>, sz)))
                 else Some (Inr (s\<lparr>parent := upd p2 ry rx\<rparr>, upd sz rx (at sz rx + at sz ry)))))"
    by blast
  have l1: "linked (parent s) ry rx (upd p2 rx ry)" and l2: "linked (parent s) rx ry (upd p2 ry rx)"
    using ss by (simp_all add: linkedI)
  from frames_or_overflow[OF dx dy, of k True sz]
  consider (o) "\<exists>t. unionBySize_frames k s x y sz = Inl (StackOverflow, (t, sz))" "k < dx \<or> k < dy"
    | (r) "Some (unionBySize_frames k s x y sz) = unionBySize s x y sz"
    by blast
  then show ?thesis
  proof cases
    case o
    have "k < length (parent s)" using o(2) le by auto
    then show ?thesis using o(1) by blast
  next
    case r
    note q = r[unfolded e]
    have a: "\<exists>t sz'. unionBySize_frames k s x y sz = Inr (t, sz')"
      if "rx = ry \<or> in_range sz rx \<and> in_range sz ry \<and> int_ok (at sz rx + at sz ry)"
      using q that by (auto simp: add.commute split: if_splits)
    have b: "\<exists>t. unionBySize_frames k s x y sz = Inl (OutOfBounds, (t, sz)) \<and>
                 same_sets (parent s) (parent t)"
      if "rx \<noteq> ry \<and> \<not> (in_range sz rx \<and> in_range sz ry)"
    proof -
      have "unionBySize_frames k s x y sz = Inl (OutOfBounds, (s\<lparr>parent := p2\<rparr>, sz))"
        using q that by (auto split: if_splits)
      then show ?thesis using ss by (intro exI[of _ "s\<lparr>parent := p2\<rparr>"]) simp
    qed
    have c: "\<exists>t. unionBySize_frames k s x y sz = Inl (SignedOverflow, (t, sz)) \<and>
                 (linked (parent s) ry rx (parent t) \<or> linked (parent s) rx ry (parent t))"
      if h: "rx \<noteq> ry \<and> in_range sz rx \<and> in_range sz ry \<and> \<not> int_ok (at sz rx + at sz ry)"
    proof (cases "at sz rx < at sz ry")
      case True
      have "unionBySize_frames k s x y sz = Inl (SignedOverflow, (s\<lparr>parent := upd p2 rx ry\<rparr>, sz))"
        using q h True by (simp add: add.commute)
      then show ?thesis using l1 by (intro exI[of _ "s\<lparr>parent := upd p2 rx ry\<rparr>"]) simp
    next
      case False
      have "unionBySize_frames k s x y sz = Inl (SignedOverflow, (s\<lparr>parent := upd p2 ry rx\<rparr>, sz))"
        using q h False by simp
      then show ?thesis using l2 by (intro exI[of _ "s\<lparr>parent := upd p2 ry rx\<rparr>"]) simp
    qed
    show ?thesis using a b c by blast
  qed
qed

text \<open>
  C9 as stated fails. After the unions (0,1), (2,3), (0,2) on four elements, the call
  \<open>unionSets 3 7\<close> does not reject the id 7: it first runs \<open>find 3\<close>, which
  rewrites \<open>parent[3]\<close>, and then reads \<open>parent[7]\<close> outside the vector. \<open>find 7\<close> and
  \<open>find (-1)\<close> read outside the vector at once. No check and no reported condition
  exists in the code. Nor is an id out of range the only failure: \<open>find 3\<close>, with
  the id in range, overflows a stack that has room for two frames; and on three
  elements \<open>unionBySize 1 2\<close>, with both ids in range, reads outside a size vector of
  one entry, and with the sizes \<open>2147483647\<close> and \<open>1\<close> overflows \<^verbatim>\<open>int\<close> after
  \<open>parent[2]\<close> has been rewritten.
\<close>

theorem bounds_unchecked_counterexample:
  "UnionFind_init 4 = Inr \<lparr>parent = [0, 1, 2, 3], rank = [0, 0, 0, 0]\<rparr> \<and>
   run \<lparr>parent = [0, 1, 2, 3], rank = [0, 0, 0, 0]\<rparr> [UnionSets 0 1, UnionSets 2 3, UnionSets 0 2]
     = Some (Inr \<lparr>parent = [0, 0, 0, 2], rank = [2, 0, 1, 0]\<rparr>) \<and>
   \<not> in_range [0, 0, 0, 2] 7 \<and>
   unionSets \<lparr>parent = [0, 0, 0, 2], rank = [2, 0, 1, 0]\<rparr> 3 7
     = Some (Inl (OutOfBounds, \<lparr>parent = [0, 0, 0, 0], rank = [2, 0, 1, 0]\<rparr>)) \<and>
   unionSets_frames 4 \<lparr>parent = [0, 0, 0, 2], rank = [2, 0, 1, 0]\<rparr> 3 7
     = Inl (OutOfBounds, \<lparr>parent = [0, 0, 0, 0], rank = [2, 0, 1, 0]\<rparr>) \<and>
   [0, 0, 0, 0] \<noteq> [0, 0, 0, 2 :: int] \<and>
   find_uf \<lparr>parent = [0, 0, 0, 2], rank = [2, 0, 1, 0]\<rparr> 7
     = Some (Inl (OutOfBounds, \<lparr>parent = [0, 0, 0, 2], rank = [2, 0, 1, 0]\<rparr>)) \<and>
   find_uf \<lparr>parent = [0, 0, 0, 2], rank = [2, 0, 1, 0]\<rparr> (- 1)
     = Some (Inl (OutOfBounds, \<lparr>parent = [0, 0, 0, 2], rank = [2, 0, 1, 0]\<rparr>)) \<and>
   in_range [0, 0, 0, 2] 3 \<and>
   find_frames 2 \<lparr>parent = [0, 0, 0, 2], rank = [2, 0, 1, 0]\<rparr> 3
     = Inl (StackOverflow, \<lparr>parent = [0, 0, 0, 2], rank = [2, 0, 1, 0]\<rparr>) \<and>
   UnionFind_init 3 = Inr \<lparr>parent = [0, 1, 2], rank = [0, 0, 0]\<rparr> \<and>
   in_range [0, 1, 2] 1 \<and> in_range [0, 1, 2] 2 \<and>
   unionBySize \<lparr>parent = [0, 1, 2], rank = [0, 0, 0]\<rparr> 1 2 [1]
     = Some (Inl (OutOfBounds, (\<lparr>parent = [0, 1, 2], rank = [0, 0, 0]\<rparr>, [1]))) \<and>
   unionBySize \<lparr>parent = [0, 1, 2], rank = [0, 0, 0]\<rparr> 1 2 [0, 2147483647, 1]
     = Some (Inl (SignedOverflow,
         (\<lparr>parent = [0, 1, 1], rank = [0, 0, 0]\<rparr>, [0, 2147483647, 1])))"
  by (simp add: ev unionSets_frames_def)

text \<open>
  C9, amended. With an id outside \<open>[0, n)\<close>, \<open>find\<close>, the unions and \<open>connected\<close> make
  an out-of-range access of the parent vector (the fault \<open>OutOfBounds\<close>) instead of
  rejecting the call. On a stack with room for at least one frame, with the id of
  \<open>find\<close>, or the first id of a union or of \<open>connected\<close>, out of range, they make it
  before anything is written. With a first id in range, on a stack with room for its
  chain, and a second id out of range, the unions and \<open>connected\<close> make it after \<open>find\<close>
  of the first id has compressed its path: the parent array is then the compressed one.
  (\<open>connected\<close> evaluating \<^verbatim>\<open>find(v)\<close> first does to \<open>v\<close>, \<open>u\<close> what \<open>connected\<close>
  does to \<open>u\<close>, \<open>v\<close>.)

  An id out of range is not the only failure. \<open>find\<close>, and every operation through its
  first call of \<open>find\<close>, overflows the stack, with nothing written, when the chain of the
  id has more nodes than the stack has room for frames. With both ids in range on a
  state that satisfies the invariant, \<open>find\<close>, the unions by rank and \<open>connected\<close> (in
  either order of evaluation, with the same result when both orders return) return, or
  else overflow a stack that has room for less than \<open>n\<close> frames. \<open>unionBySize\<close> on two
  elements with the roots \<open>rx\<close> and \<open>ry\<close> overflows a stack that has room for less than
  \<open>n\<close> frames, or else: it returns when the roots are equal, or the size vector has
  entries for both whose sum is an \<^verbatim>\<open>int\<close>; it makes an out-of-range access of the
  size vector, the sets being as before, when the roots differ and the vector lacks an
  entry for one of them; and its addition overflows \<^verbatim>\<open>int\<close>, after one root has been
  attached under the other, when the roots differ and the sum of their entries is not an
  \<^verbatim>\<open>int\<close>.
\<close>

theorem bounds_unchecked:
  "(\<not> in_range (parent s) x \<longrightarrow>
      find_frames (Suc k) s x = Inl (OutOfBounds, s) \<and>
      unionSets_frames (Suc k) s x y = Inl (OutOfBounds, s) \<and>
      unionSets3_frames (Suc k) s x y b = Inl (OutOfBounds, s) \<and>
      unionBySize_frames (Suc k) s x y sz = Inl (OutOfBounds, (s, sz)) \<and>
      connected_frames (Suc k) s x y = Inl (OutOfBounds, s) \<and>
      connected_rl_frames (Suc k) s y x = Inl (OutOfBounds, s)) \<and>
   (depth (parent s) x d \<and> d \<le> k \<and> \<not> in_range (parent s) y \<longrightarrow>
      (\<exists>rx p1. chain (parent s) x rx \<and> compressed (parent s) x rx p1 \<and>
         find_frames k s x = Inr (rx, s\<lparr>parent := p1\<rparr>) \<and>
         unionSets_frames k s x y = Inl (OutOfBounds, s\<lparr>parent := p1\<rparr>) \<and>
         unionSets3_frames k s x y b = Inl (OutOfBounds, s\<lparr>parent := p1\<rparr>) \<and>
         unionBySize_frames k s x y sz = Inl (OutOfBounds, (s\<lparr>parent := p1\<rparr>, sz)) \<and>
         connected_frames k s x y = Inl (OutOfBounds, s\<lparr>parent := p1\<rparr>) \<and>
         connected_rl_frames k s y x = Inl (OutOfBounds, s\<lparr>parent := p1\<rparr>))) \<and>
   (depth (parent s) x d \<and> k < d \<longrightarrow>
      find_frames k s x = Inl (StackOverflow, s) \<and>
      unionSets_frames k s x y = Inl (StackOverflow, s) \<and>
      unionSets3_frames k s x y b = Inl (StackOverflow, s) \<and>
      unionBySize_frames k s x y sz = Inl (StackOverflow, (s, sz)) \<and>
      connected_frames k s x y = Inl (StackOverflow, s) \<and>
      connected_rl_frames k s y x = Inl (StackOverflow, s)) \<and>
   (uf_inv s \<and> in_range (parent s) x \<and> in_range (parent s) y \<longrightarrow>
      ((\<exists>r t. find_frames k s x = Inr (r, t)) \<or>
         k < length (parent s) \<and> find_frames k s x = Inl (StackOverflow, s)) \<and>
      ((\<exists>t. unionSets_frames k s x y = Inr t) \<or>
         k < length (parent s) \<and> (\<exists>t. unionSets_frames k s x y = Inl (StackOverflow, t))) \<and>
      ((\<exists>t. unionSets3_frames k s x y b = Inr t) \<or>
         k < length (parent s) \<and> (\<exists>t. unionSets3_frames k s x y b = Inl (StackOverflow, t))) \<and>
      ((\<exists>c t. connected_frames k s x y = Inr (c, t)) \<or>
         k < length (parent s) \<and> (\<exists>t. connected_frames k s x y = Inl (StackOverflow, t))) \<and>
      ((\<exists>c t. connected_rl_frames k s x y = Inr (c, t)) \<or>
         k < length (parent s) \<and> (\<exists>t. connected_rl_frames k s x y = Inl (StackOverflow, t))) \<and>
      (\<forall>ct ct'. connected_frames k s x y = Inr ct \<and> connected_rl_frames k s x y = Inr ct' \<longrightarrow>
         ct = ct')) \<and>
   (chain (parent s) x rx \<and> chain (parent s) y ry \<longrightarrow>
      k < length (parent s) \<and>
        (\<exists>t. unionBySize_frames k s x y sz = Inl (StackOverflow, (t, sz))) \<or>
      (rx = ry \<or> in_range sz rx \<and> in_range sz ry \<and> int_ok (at sz rx + at sz ry) \<longrightarrow>
         (\<exists>t sz'. unionBySize_frames k s x y sz = Inr (t, sz'))) \<and>
      (rx \<noteq> ry \<and> \<not> (in_range sz rx \<and> in_range sz ry) \<longrightarrow>
         (\<exists>t. unionBySize_frames k s x y sz = Inl (OutOfBounds, (t, sz)) \<and>
              same_sets (parent s) (parent t))) \<and>
      (rx \<noteq> ry \<and> in_range sz rx \<and> in_range sz ry \<and> \<not> int_ok (at sz rx + at sz ry) \<longrightarrow>
         (\<exists>t. unionBySize_frames k s x y sz = Inl (SignedOverflow, (t, sz)) \<and>
              (linked (parent s) ry rx (parent t) \<or> linked (parent s) rx ry (parent t)))))"
proof (intro conjI impI)
  assume o: "\<not> in_range (parent s) x"
  show "find_frames (Suc k) s x = Inl (OutOfBounds, s)" using o by (rule frames_oob_first)
  show "unionSets_frames (Suc k) s x y = Inl (OutOfBounds, s)" using o by (rule frames_oob_first)
  show "unionSets3_frames (Suc k) s x y b = Inl (OutOfBounds, s)" using o by (rule frames_oob_first)
  show "unionBySize_frames (Suc k) s x y sz = Inl (OutOfBounds, (s, sz))"
    using o by (rule frames_oob_first)
  show "connected_frames (Suc k) s x y = Inl (OutOfBounds, s)" using o by (rule frames_oob_first)
  show "connected_rl_frames (Suc k) s y x = Inl (OutOfBounds, s)" using o by (rule frames_oob_first)
next
  assume "depth (parent s) x d \<and> d \<le> k \<and> \<not> in_range (parent s) y"
  then have d: "depth (parent s) x d" and k: "d \<le> k" and o: "\<not> in_range (parent s) y"
    by simp_all
  show "\<exists>rx p1. chain (parent s) x rx \<and> compressed (parent s) x rx p1 \<and>
         find_frames k s x = Inr (rx, s\<lparr>parent := p1\<rparr>) \<and>
         unionSets_frames k s x y = Inl (OutOfBounds, s\<lparr>parent := p1\<rparr>) \<and>
         unionSets3_frames k s x y b = Inl (OutOfBounds, s\<lparr>parent := p1\<rparr>) \<and>
         unionBySize_frames k s x y sz = Inl (OutOfBounds, (s\<lparr>parent := p1\<rparr>, sz)) \<and>
         connected_frames k s x y = Inl (OutOfBounds, s\<lparr>parent := p1\<rparr>) \<and>
         connected_rl_frames k s y x = Inl (OutOfBounds, s\<lparr>parent := p1\<rparr>)"
    using d k o by (rule frames_oob_second)
next
  assume "depth (parent s) x d \<and> k < d"
  then have d: "depth (parent s) x d" and k: "k < d" by simp_all
  show "find_frames k s x = Inl (StackOverflow, s)" using d k by (rule frames_overflow)
  show "unionSets_frames k s x y = Inl (StackOverflow, s)" using d k by (rule frames_overflow)
  show "unionSets3_frames k s x y b = Inl (StackOverflow, s)" using d k by (rule frames_overflow)
  show "unionBySize_frames k s x y sz = Inl (StackOverflow, (s, sz))"
    using d k by (rule frames_overflow)
  show "connected_frames k s x y = Inl (StackOverflow, s)" using d k by (rule frames_overflow)
  show "connected_rl_frames k s y x = Inl (StackOverflow, s)" using d k by (rule frames_overflow)
next
  assume "uf_inv s \<and> in_range (parent s) x \<and> in_range (parent s) y"
  then have i: "uf_inv s" and x: "in_range (parent s) x" and y: "in_range (parent s) y"
    by simp_all
  show "(\<exists>r t. find_frames k s x = Inr (r, t)) \<or>
         k < length (parent s) \<and> find_frames k s x = Inl (StackOverflow, s)"
    using i x y by (rule valid_ids_frames(1))
  show "(\<exists>t. unionSets_frames k s x y = Inr t) \<or>
         k < length (parent s) \<and> (\<exists>t. unionSets_frames k s x y = Inl (StackOverflow, t))"
    using i x y by (rule valid_ids_frames(2))
  show "(\<exists>t. unionSets3_frames k s x y b = Inr t) \<or>
         k < length (parent s) \<and> (\<exists>t. unionSets3_frames k s x y b = Inl (StackOverflow, t))"
    using i x y by (rule valid_ids_frames(3))
  show "(\<exists>c t. connected_frames k s x y = Inr (c, t)) \<or>
         k < length (parent s) \<and> (\<exists>t. connected_frames k s x y = Inl (StackOverflow, t))"
    using i x y by (rule valid_ids_frames(4))
  show "(\<exists>c t. connected_rl_frames k s x y = Inr (c, t)) \<or>
         k < length (parent s) \<and> (\<exists>t. connected_rl_frames k s x y = Inl (StackOverflow, t))"
    using i x y by (rule valid_ids_frames(5))
  show "\<forall>ct ct'. connected_frames k s x y = Inr ct \<and> connected_rl_frames k s x y = Inr ct' \<longrightarrow>
         ct = ct'"
    using valid_ids_frames(6)[OF i x y] by blast
next
  assume "chain (parent s) x rx \<and> chain (parent s) y ry"
  then have cx: "chain (parent s) x rx" and cy: "chain (parent s) y ry" by simp_all
  show "k < length (parent s) \<and>
        (\<exists>t. unionBySize_frames k s x y sz = Inl (StackOverflow, (t, sz))) \<or>
      (rx = ry \<or> in_range sz rx \<and> in_range sz ry \<and> int_ok (at sz rx + at sz ry) \<longrightarrow>
         (\<exists>t sz'. unionBySize_frames k s x y sz = Inr (t, sz'))) \<and>
      (rx \<noteq> ry \<and> \<not> (in_range sz rx \<and> in_range sz ry) \<longrightarrow>
         (\<exists>t. unionBySize_frames k s x y sz = Inl (OutOfBounds, (t, sz)) \<and>
              same_sets (parent s) (parent t))) \<and>
      (rx \<noteq> ry \<and> in_range sz rx \<and> in_range sz ry \<and> \<not> int_ok (at sz rx + at sz ry) \<longrightarrow>
         (\<exists>t. unionBySize_frames k s x y sz = Inl (SignedOverflow, (t, sz)) \<and>
              (linked (parent s) ry rx (parent t) \<or> linked (parent s) rx ry (parent t))))"
    using cx cy by (rule unionBySize_frames_cases)
qed

theorem bounds_unchecked_witness:
  "\<not> in_range (parent \<lparr>parent = [0, 0, 0, 2], rank = [2, 0, 1, 0]\<rparr>) 7 \<and>
   depth (parent \<lparr>parent = [0, 0, 0, 2], rank = [2, 0, 1, 0]\<rparr>) 3 3 \<and>
   uf_inv \<lparr>parent = [0, 0, 0, 2], rank = [2, 0, 1, 0]\<rparr> \<and>
   in_range (parent \<lparr>parent = [0, 0, 0, 2], rank = [2, 0, 1, 0]\<rparr>) 3 \<and>
   in_range (parent \<lparr>parent = [0, 0, 0, 2], rank = [2, 0, 1, 0]\<rparr>) 1 \<and>
   find_frames (Suc 0) \<lparr>parent = [0, 0, 0, 2], rank = [2, 0, 1, 0]\<rparr> 7
     = Inl (OutOfBounds, \<lparr>parent = [0, 0, 0, 2], rank = [2, 0, 1, 0]\<rparr>) \<and>
   (\<exists>rx p1. compressed [0, 0, 0, 2] 3 rx p1 \<and>
      unionSets_frames 4 \<lparr>parent = [0, 0, 0, 2], rank = [2, 0, 1, 0]\<rparr> 3 7
        = Inl (OutOfBounds, \<lparr>parent = [0, 0, 0, 2], rank = [2, 0, 1, 0]\<rparr>\<lparr>parent := p1\<rparr>)) \<and>
   find_frames 2 \<lparr>parent = [0, 0, 0, 2], rank = [2, 0, 1, 0]\<rparr> 3
     = Inl (StackOverflow, \<lparr>parent = [0, 0, 0, 2], rank = [2, 0, 1, 0]\<rparr>) \<and>
   (\<exists>t. unionSets_frames 4 \<lparr>parent = [0, 0, 0, 2], rank = [2, 0, 1, 0]\<rparr> 3 1 = Inr t) \<and>
   (\<exists>c t. connected_frames 4 \<lparr>parent = [0, 0, 0, 2], rank = [2, 0, 1, 0]\<rparr> 3 1 = Inr (c, t)) \<and>
   chain (parent \<lparr>parent = [0, 1, 2], rank = [0, 0, 0]\<rparr>) 1 1 \<and>
   chain (parent \<lparr>parent = [0, 1, 2], rank = [0, 0, 0]\<rparr>) 2 2 \<and>
   \<not> in_range [1] 1 \<and>
   (\<exists>t. unionBySize_frames 3 \<lparr>parent = [0, 1, 2], rank = [0, 0, 0]\<rparr> 1 2 [1]
      = Inl (OutOfBounds, (t, [1]))) \<and>
   \<not> int_ok (at [0, 2147483647, 1] 1 + at [0, 2147483647, 1] 2) \<and>
   (\<exists>t. unionBySize_frames 3 \<lparr>parent = [0, 1, 2], rank = [0, 0, 0]\<rparr> 1 2 [0, 2147483647, 1]
      = Inl (SignedOverflow, (t, [0, 2147483647, 1]))) \<and>
   int_ok (at [1, 1, 1] 1 + at [1, 1, 1] 2) \<and>
   (\<exists>t sz'. unionBySize_frames 3 \<lparr>parent = [0, 1, 2], rank = [0, 0, 0]\<rparr> 1 2 [1, 1, 1]
      = Inr (t, sz'))"
proof -
  let ?s = "\<lparr>parent = [0, 0, 0, 2], rank = [2, 0, 1, 0]\<rparr>"
  let ?u = "\<lparr>parent = [0, 1, 2], rank = [0, 0, 0]\<rparr>"
  let ?big = "[0, 2147483647, 1] :: int list"
  have o: "\<not> in_range (parent ?s) 7" by (simp add: in_range_def)
  have d: "depth (parent ?s) 3 3" using example_depth by simp
  have i: "uf_inv ?s" by (rule example_inv)
  have r3: "in_range (parent ?s) 3" and r1: "in_range (parent ?s) 1" by (simp_all add: in_range_def)
  have c1: "chain (parent ?u) 1 1" and c2: "chain (parent ?u) 2 2"
    using example3_chains by simp_all
  have n1: "\<not> in_range [1] 1" by (simp add: in_range_def)
  have n2: "\<not> int_ok (at ?big 1 + at ?big 2)"
    by (simp add: at_def int_ok_def INT_MAX_def INT_MIN_def)
  have n3: "int_ok (at [1, 1, 1] 1 + at [1, 1, 1] 2)"
    by (simp add: at_def int_ok_def INT_MAX_def INT_MIN_def)
  have in2: "in_range ?big 1 \<and> in_range ?big 2" "in_range [1, 1, 1] 1 \<and> in_range [1, 1, 1] 2"
    by (simp_all add: in_range_def)
  have f: "find_frames (Suc 0) ?s 7 = Inl (OutOfBounds, ?s)"
    using bounds_unchecked[where s = ?s and x = 7 and k = 0, THEN conjunct1, rule_format, OF o]
    by (rule conjunct1)
  from bounds_unchecked[where s = ?s and x = 3 and y = 7 and k = 4 and d = 3,
      THEN conjunct2, THEN conjunct1, rule_format, of True "[]"] d o
  obtain rx p1 where "compressed (parent ?s) 3 rx p1"
    "unionSets_frames 4 ?s 3 7 = Inl (OutOfBounds, ?s\<lparr>parent := p1\<rparr>)"
    by auto
  then have u: "\<exists>rx p1. compressed [0, 0, 0, 2] 3 rx p1 \<and>
      unionSets_frames 4 ?s 3 7 = Inl (OutOfBounds, ?s\<lparr>parent := p1\<rparr>)"
    by auto
  have so: "find_frames 2 ?s 3 = Inl (StackOverflow, ?s)"
    using bounds_unchecked[where s = ?s and x = 3 and k = 2 and d = 3,
      THEN conjunct2, THEN conjunct2, THEN conjunct1, rule_format] d
    by simp
  note th4 = bounds_unchecked[where s = ?s and x = 3 and y = 1 and k = 4,
      THEN conjunct2, THEN conjunct2, THEN conjunct2, THEN conjunct1, rule_format,
      OF conjI[OF i conjI[OF r3 r1]]]
  have "(\<exists>t. unionSets_frames 4 ?s 3 1 = Inr t) \<or>
         4 < length (parent ?s) \<and> (\<exists>t. unionSets_frames 4 ?s 3 1 = Inl (StackOverflow, t))"
    using th4 by blast
  then have v1: "\<exists>t. unionSets_frames 4 ?s 3 1 = Inr t" by simp
  have "(\<exists>c t. connected_frames 4 ?s 3 1 = Inr (c, t)) \<or>
         4 < length (parent ?s) \<and> (\<exists>t. connected_frames 4 ?s 3 1 = Inl (StackOverflow, t))"
    using th4 by blast
  then have v2: "\<exists>c t. connected_frames 4 ?s 3 1 = Inr (c, t)" by simp
  note th5 = bounds_unchecked[where s = ?u and x = 1 and y = 2 and k = 3 and rx = 1 and ry = 2,
      THEN conjunct2, THEN conjunct2, THEN conjunct2, THEN conjunct2, rule_format,
      OF conjI[OF c1 c2]]
  have k3: "\<not> 3 < length (parent ?u)" by simp
  have a: "(1 \<noteq> (2::int) \<and> \<not> (in_range [1] 1 \<and> in_range [1] 2) \<longrightarrow>
         (\<exists>t. unionBySize_frames 3 ?u 1 2 [1] = Inl (OutOfBounds, (t, [1])) \<and>
              same_sets (parent ?u) (parent t)))"
    using th5[where sz = "[1]"] k3 by blast
  have w1: "\<exists>t. unionBySize_frames 3 ?u 1 2 [1] = Inl (OutOfBounds, (t, [1]))"
    using a n1 by auto
  have b: "(1 \<noteq> (2::int) \<and> in_range ?big 1 \<and> in_range ?big 2 \<and>
          \<not> int_ok (at ?big 1 + at ?big 2) \<longrightarrow>
         (\<exists>t. unionBySize_frames 3 ?u 1 2 ?big = Inl (SignedOverflow, (t, ?big)) \<and>
              (linked (parent ?u) 2 1 (parent t) \<or> linked (parent ?u) 1 2 (parent t))))"
    using th5[where sz = ?big] k3 by blast
  have w2: "\<exists>t. unionBySize_frames 3 ?u 1 2 ?big = Inl (SignedOverflow, (t, ?big))"
    using b n2 in2(1) by auto
  have c: "(1 = (2::int) \<or> in_range [1, 1, 1] 1 \<and> in_range [1, 1, 1] 2 \<and>
          int_ok (at [1, 1, 1] 1 + at [1, 1, 1] 2) \<longrightarrow>
         (\<exists>t sz'. unionBySize_frames 3 ?u 1 2 [1, 1, 1] = Inr (t, sz')))"
    using th5[where sz = "[1, 1, 1]"] k3 by blast
  have w3: "\<exists>t sz'. unionBySize_frames 3 ?u 1 2 [1, 1, 1] = Inr (t, sz')"
    using c n3 in2(2) by blast
  show ?thesis using o d i r3 r1 f u so v1 v2 c1 c2 n1 w1 n2 w2 n3 w3 by (intro conjI)
qed

end
